theory Spec2Isabelle
  imports Main "HOL-Library.Word" "HOL-Library.Signed_Division"
begin

section \<open>Data model\<close>

text \<open>
  The search core of the engine is the class \<open>Search\<close> of \<open>src/search.cc\<close>. Its
  collaborators (board, move generator, evaluator, transposition table, ordering
  information, move pickers) are declared in headers that are not part of the source
  under study; each is modelled below by the smallest structure that the code of
  \<open>search.cc\<close> observes, and what the code cannot observe is left as a parameter.

  C++ \<open>int\<close> is modelled by \<open>int\<close>: no arithmetic of the search itself can leave
  the 32-bit range as long as scores stay within \<open>[-INF, INF]\<close> and the node counter
  stays below \<open>2^31\<close>; the one product that can (the nodes-per-second figure of the
  progress line) has its wrap-around written out.
\<close>

type_synonym zkey = "64 word"

datatype color = WHITE | BLACK

datatype flag = NULL_MOVE | CAPTURE | DOUBLE_PAWN_PUSH | KSIDE_CASTLE | QSIDE_CASTLE
  | EN_PASSANT | PROMOTION

text \<open>
  Modelled from the spec: class \<open>Move\<close> (\<open>move.h\<close> is missing). A move is its from and
  to squares plus flags; \<open>getFlags() & Move::F\<close> is membership of \<open>F\<close> in the flag
  set. The default-constructed \<open>Move()\<close> is the null-move sentinel.
\<close>

record move =
  getFrom :: nat
  getTo :: nat
  getFlags :: "flag set"

definition Move :: move where
  "Move = \<lparr>getFrom = 0, getTo = 0, getFlags = {NULL_MOVE}\<rparr>"

text \<open>
  A position is the finite game tree unfolded from it: the fingerprint, the side to
  move, the check status and static evaluation per colour, and the legal moves, each
  paired with the position that \<open>doMove\<close> leads to. A search visits finitely many
  positions (full width down to the depth floor, captures only below it), so a finite
  unfolding that covers them behaves as the engine's board does. Nothing relates the
  fields of a position to those of its successors: fingerprints may collide and repeat.
\<close>

datatype board = Board
  (getZKey: zkey)
  (getActivePlayer: color)
  (colorIsInCheck: "color \<Rightarrow> bool")
  (evalScore: "color \<Rightarrow> int")
  (successors: "(move \<times> board) list")

definition getLegalMoves :: "board \<Rightarrow> move list" where
  "getLegalMoves b = map fst (successors b)"

definition doMove :: "board \<Rightarrow> move \<Rightarrow> board option" where
  "doMove b m = map_of (successors b) m"

datatype tt_flag = EXACT | LOWER_BOUND | UPPER_BOUND

record tt_entry =
  getScore :: int
  getDepth :: int
  getFlag :: tt_flag
  getBestMove :: move

definition TranspTableEntry :: "int \<Rightarrow> int \<Rightarrow> tt_flag \<Rightarrow> move \<Rightarrow> tt_entry" where
  "TranspTableEntry score depth flg m =
     \<lparr>getScore = score, getDepth = depth, getFlag = flg, getBestMove = m\<rparr>"

text \<open>
  Modelled from the spec: the transposition cache (\<open>transptable.h\<close> is missing): keyed
  get/set by fingerprint, get returns the most recent entry for a key or absent, set
  inserts or replaces and preserves the fields exactly as written.
\<close>

type_synonym transp_table = "zkey \<rightharpoonup> tt_entry"

definition tt_set :: "transp_table \<Rightarrow> zkey \<Rightarrow> tt_entry \<Rightarrow> transp_table" where
  "tt_set t k e = t(k \<mapsto> e)"

text \<open>
  Modelled from the spec: the move-ordering state (\<open>orderinginfo.h\<close> is missing): a ply
  counter with increment and decrement, a ply-indexed killer-move slot, and a history
  weight per (side, from, to).
\<close>

record ordering_info =
  getPly :: int
  killers :: "int \<rightharpoonup> move"
  history :: "color \<times> nat \<times> nat \<Rightarrow> int"

definition OrderingInfo :: ordering_info where
  "OrderingInfo = \<lparr>getPly = 0, killers = Map.empty, history = (\<lambda>_. 0)\<rparr>"

definition incrementPly :: "ordering_info \<Rightarrow> ordering_info" where
  "incrementPly oi = oi\<lparr>getPly := getPly oi + 1\<rparr>"

definition deincrementPly :: "ordering_info \<Rightarrow> ordering_info" where
  "deincrementPly oi = oi\<lparr>getPly := getPly oi - 1\<rparr>"

definition updateKillers :: "ordering_info \<Rightarrow> int \<Rightarrow> move \<Rightarrow> ordering_info" where
  "updateKillers oi ply m = oi\<lparr>killers := (killers oi)(ply \<mapsto> m)\<rparr>"

text \<open>
  The limits configuration. The fields are \<open>infinite\<close>, \<open>depth\<close>, \<open>time[]\<close>,
  \<open>increment[]\<close>, \<open>movesToGo\<close> and \<open>nodes\<close> of the source, prefixed so that they do not
  clash with the variables of the search functions.
\<close>

record limits =
  l_infinite :: bool
  l_depth :: int
  l_time :: "color \<Rightarrow> int"
  l_increment :: "color \<Rightarrow> int"
  l_movesToGo :: int
  l_nodes :: int

text \<open>What the engine prints: one progress line per completed depth, and the final move.\<close>

datatype score_string = Mate nat | MateNeg nat | Cp int

datatype uci_line =
  InfoLine (infoDepth: int) (infoNodes: int) (infoScore: score_string) (infoNps: int)
    (infoTime: int) (infoPv: "move list")
  | BestMoveLine move

text \<open>
  The members of \<open>Search\<close> (the leading underscore of the source dropped), with two
  additions that make the effects explicit: \<open>clockReads\<close> counts the readings of the
  steady clock, and \<open>uciOut\<close> is what has been written to standard output.
\<close>

record search =
  orderingInfo :: ordering_info
  limits :: limits
  board :: board
  logUci :: bool
  stop :: bool
  limitCheckCount :: int
  bestMove :: move
  bestScore :: int
  searchDepth :: int
  timeAllocated :: int
  nodes :: int
  tt :: transp_table
  clockReads :: nat
  uciOut :: "uci_line list"

text \<open>
  The parameters of the model: the constants of \<open>defs.h\<close> and \<open>search.h\<close>, the two move
  pickers, the history bonus, and the steady clock (\<open>elapsedAt n\<close> is the number
  of milliseconds since the start of the search at the \<open>n\<close>-th reading). \<open>INFTY\<close> is
  the source's \<open>INF\<close>, a name that HOL reserves for the infimum.

  A picker is constructed from the legal moves (the general one also from the ordering
  information, which holds a pointer to the cache, and from the board) and hands out
  moves one at a time; its priority order is fixed at construction, so it is the list of
  moves in the order handed out. The fallback \<open>legalMoves.at(0)\<close> is read from the
  move generator's list.
\<close>

record params =
  INFTY :: int
  MAX_SEARCH_DEPTH :: int
  DEFAULT_SEARCH_DEPTH :: int
  SUDDEN_DEATH_MOVESTOGO :: int
  GeneralMovePicker :: "ordering_info \<Rightarrow> transp_table \<Rightarrow> board \<Rightarrow> move list \<Rightarrow> move list"
  CaptureMovePicker :: "move list \<Rightarrow> move list"
  historyBonus :: "int \<Rightarrow> int"
  elapsedAt :: "nat \<Rightarrow> int"

text \<open>
  Modelled from the spec: \<open>incrementHistory\<close> strengthens the weight of (side, from, to)
  by an amount that grows with the remaining depth.
\<close>

definition incrementHistory ::
  "params \<Rightarrow> ordering_info \<Rightarrow> color \<Rightarrow> nat \<Rightarrow> nat \<Rightarrow> int \<Rightarrow> ordering_info" where
  "incrementHistory P oi c f t depth =
     oi\<lparr>history := (history oi)((c, f, t) := history oi (c, f, t) + historyBonus P depth)\<rparr>"

section \<open>The search controller\<close>

text \<open>C++ division truncates towards zero.\<close>

definition Search :: "params \<Rightarrow> board \<Rightarrow> limits \<Rightarrow> bool \<Rightarrow> int \<Rightarrow> search" where
  "Search P brd lim logU nodes0 =
    (let side = getActivePlayer brd;
         (sd, ta) =
           (if l_infinite lim then (INFTY P, INFTY P)
            else if l_depth lim \<noteq> 0 then (l_depth lim, INFTY P)
            else if l_time lim side \<noteq> 0 then
              (let timeRemaining = l_time lim side + l_increment lim side in
               (MAX_SEARCH_DEPTH P,
                if l_movesToGo lim = 0 then timeRemaining sdiv SUDDEN_DEATH_MOVESTOGO P
                else timeRemaining sdiv l_movesToGo lim))
            else (DEFAULT_SEARCH_DEPTH P, INFTY P))
     in \<lparr>orderingInfo = OrderingInfo, limits = lim, board = brd, logUci = logU,
          stop = False, limitCheckCount = 0, bestMove = Move, bestScore = 0,
          searchDepth = sd, timeAllocated = ta, nodes = nodes0, tt = Map.empty,
          clockReads = 0, uciOut = []\<rparr>)"

definition checkLimits :: "params \<Rightarrow> search \<Rightarrow> bool \<times> search" where
  "checkLimits P s =
    (let c = limitCheckCount s - 1 in
     if c > 0 then (False, s\<lparr>limitCheckCount := c\<rparr>)
     else
       (let elapsed = elapsedAt P (clockReads s);
            s1 = s\<lparr>limitCheckCount := 4096, clockReads := clockReads s + 1\<rparr>
        in if l_nodes (limits s) \<noteq> 0 \<and> nodes s \<ge> l_nodes (limits s) then (True, s1)
           else if elapsed \<ge> timeAllocated s then (True, s1)
           else (False, s1)))"

text \<open>
  The condition \<open>_stop || _checkLimits()\<close> that opens every search call: the poll is
  skipped when the flag is already set.
\<close>

definition limitsReached :: "params \<Rightarrow> search \<Rightarrow> bool \<times> search" where
  "limitsReached P s = (if stop s then (True, s) else checkLimits P s)"

section \<open>Quiescence search\<close>

text \<open>
  \<open>qSearch\<close> is \<open>Search::_qSearch\<close> and \<open>qLoop\<close> its loop over the capture
  picker. A move the picker hands out that is not a legal move of the position has no
  successor in the tree and is passed over.
\<close>

function qSearch :: "params \<Rightarrow> board \<Rightarrow> int \<Rightarrow> int \<Rightarrow> search \<Rightarrow> int \<times> search"
and qLoop :: "params \<Rightarrow> board \<Rightarrow> move list \<Rightarrow> int \<Rightarrow> int \<Rightarrow> search \<Rightarrow> int \<times> search"
where
  "qSearch P b alpha beta s =
    (let (lim, s1) = limitsReached P s in
     if lim then (0, s1\<lparr>stop := True\<rparr>)
     else if getLegalMoves b = [] then
       (if colorIsInCheck b (getActivePlayer b) then (- INFTY P, s1) else (0, s1))
     else
       (let standPat = evalScore b (getActivePlayer b);
            s2 = s1\<lparr>nodes := nodes s1 + 1\<rparr>;
            movePicker = CaptureMovePicker P (getLegalMoves b)
        in if movePicker = [] then (standPat, s2)
           else if standPat \<ge> beta then (beta, s2)
           else qLoop P b movePicker (if alpha < standPat then standPat else alpha) beta s2))"
| "qLoop P b [] alpha beta s = (alpha, s)"
| "qLoop P b (m # ms) alpha beta s =
    (case doMove b m of
       None \<Rightarrow> qLoop P b ms alpha beta s
     | Some movedBoard \<Rightarrow>
        (let (v, s1) = qSearch P movedBoard (- beta) (- alpha) s;
             score = - v
         in if score \<ge> beta then (beta, s1)
            else qLoop P b ms (if score > alpha then score else alpha) beta s1))"
  by pat_completeness auto

section \<open>NegaMax\<close>

text \<open>
  The cache probe of \<open>Search::_negaMax\<close>: \<open>Inl v\<close> is \<open>return v\<close>, and
  \<open>Inr (alpha, beta)\<close> is falling through to move generation with the window
  (tightened or not).
\<close>

definition ttProbe :: "tt_entry option \<Rightarrow> int \<Rightarrow> int \<Rightarrow> int \<Rightarrow> int + int \<times> int" where
  "ttProbe entry depth alpha beta =
    (case entry of
       None \<Rightarrow> Inr (alpha, beta)
     | Some ttEntry \<Rightarrow>
         if getDepth ttEntry \<ge> depth then
           (case getFlag ttEntry of
              EXACT \<Rightarrow> Inl (getScore ttEntry)
            | UPPER_BOUND \<Rightarrow>
                (let beta' = min beta (getScore ttEntry) in
                 if alpha \<ge> beta' then Inl (getScore ttEntry) else Inr (alpha, beta'))
            | LOWER_BOUND \<Rightarrow>
                (let alpha' = max alpha (getScore ttEntry) in
                 if alpha' \<ge> beta then Inl (getScore ttEntry) else Inr (alpha', beta)))
         else Inr (alpha, beta))"

text \<open>The beta cutoff of the move loop: killer and history update, and the cache store.\<close>

definition betaCutoff :: "params \<Rightarrow> board \<Rightarrow> int \<Rightarrow> move \<Rightarrow> int \<Rightarrow> search \<Rightarrow> search" where
  "betaCutoff P b depth m score s =
    (let oi = updateKillers (orderingInfo s) (getPly (orderingInfo s)) m;
         oi' = (if CAPTURE \<notin> getFlags m
                then incrementHistory P oi (getActivePlayer (board s)) (getFrom m) (getTo m) depth
                else oi);
         newTTEntry = TranspTableEntry score depth LOWER_BOUND m
     in s\<lparr>orderingInfo := oi', tt := tt_set (tt s) (getZKey b) newTTEntry\<rparr>)"

text \<open>The code that follows the move loop: null-move fallback and the cache store.\<close>

definition storeResult ::
  "board \<Rightarrow> int \<Rightarrow> move list \<Rightarrow> int \<Rightarrow> int \<Rightarrow> move \<Rightarrow> search \<Rightarrow> search" where
  "storeResult b depth legalMoves alphaOrig alpha bestMv s =
    (let bestMv' = (if NULL_MOVE \<in> getFlags bestMv then hd legalMoves else bestMv);
         flg = (if alpha \<le> alphaOrig then UPPER_BOUND else EXACT);
         newTTEntry = TranspTableEntry alpha depth flg bestMv'
     in s\<lparr>tt := tt_set (tt s) (getZKey b) newTTEntry\<rparr>)"

text \<open>
  \<open>negaMax\<close> is the entry of \<open>Search::_negaMax\<close> (limit check and cache probe),
  \<open>negaMoves\<close> continues after an inconclusive probe (move generation, terminal test,
  depth floor) and \<open>negaLoop\<close> is the loop over the picker; its first equation is the
  code that follows the loop. A move the picker hands out that is not a legal move of the
  position has no successor in the tree and is passed over.
\<close>

function negaMax :: "params \<Rightarrow> board \<Rightarrow> int \<Rightarrow> int \<Rightarrow> int \<Rightarrow> search \<Rightarrow> int \<times> search"
and negaMoves :: "params \<Rightarrow> board \<Rightarrow> int \<Rightarrow> int \<Rightarrow> int \<Rightarrow> int \<Rightarrow> search \<Rightarrow> int \<times> search"
and negaLoop ::
  "params \<Rightarrow> board \<Rightarrow> int \<Rightarrow> move list \<Rightarrow> move list \<Rightarrow> int \<Rightarrow> int \<Rightarrow> int \<Rightarrow> move \<Rightarrow> search
     \<Rightarrow> int \<times> search"
where
  "negaMax P b depth alpha beta s =
    (let (lim, s1) = limitsReached P s in
     if lim then (0, s1\<lparr>stop := True\<rparr>)
     else
       (let alphaOrig = alpha in
        case ttProbe (tt s1 (getZKey b)) depth alpha beta of
          Inl v \<Rightarrow> (v, s1)
        | Inr (alpha', beta') \<Rightarrow> negaMoves P b depth alphaOrig alpha' beta' s1))"
| "negaMoves P b depth alphaOrig alpha beta s =
    (let legalMoves = getLegalMoves b in
     if legalMoves = [] then
       (let score = (if colorIsInCheck b (getActivePlayer b) then - INFTY P else 0)
        in (score, s))
     else if depth = 0 then qSearch P b alpha beta s
     else negaLoop P b depth legalMoves
            (GeneralMovePicker P (orderingInfo s) (tt s) b legalMoves)
            alphaOrig alpha beta Move s)"
| "negaLoop P b depth legalMoves [] alphaOrig alpha beta bestMv s =
    (alpha, storeResult b depth legalMoves alphaOrig alpha bestMv s)"
| "negaLoop P b depth legalMoves (m # ms) alphaOrig alpha beta bestMv s =
    (case doMove b m of
       None \<Rightarrow> negaLoop P b depth legalMoves ms alphaOrig alpha beta bestMv s
     | Some movedBoard \<Rightarrow>
        (let (v, s1) = negaMax P movedBoard (depth - 1) (- beta) (- alpha)
                         (s\<lparr>orderingInfo := incrementPly (orderingInfo s)\<rparr>);
             s2 = s1\<lparr>orderingInfo := deincrementPly (orderingInfo s1)\<rparr>;
             score = - v
         in if score \<ge> beta then (beta, betaCutoff P b depth m score s2)
            else if score > alpha then
              negaLoop P b depth legalMoves ms alphaOrig score beta m s2
            else negaLoop P b depth legalMoves ms alphaOrig alpha beta bestMv s2))"
  by pat_completeness auto

section \<open>Root search\<close>

text \<open>
  The move loop of \<open>Search::_rootMax\<close>; it ends by running out of moves or by one of
  the two \<open>break\<close>s, and yields the window's lower bound, the best move and the state.
\<close>

fun rootLoop ::
  "params \<Rightarrow> board \<Rightarrow> int \<Rightarrow> move list \<Rightarrow> int \<Rightarrow> int \<Rightarrow> move \<Rightarrow> search
     \<Rightarrow> int \<times> move \<times> search"
where
  "rootLoop P b depth [] alpha beta bestMv s = (alpha, bestMv, s)"
| "rootLoop P b depth (m # ms) alpha beta bestMv s =
    (case doMove b m of
       None \<Rightarrow> rootLoop P b depth ms alpha beta bestMv s
     | Some movedBoard \<Rightarrow>
        (let (v, s1) = negaMax P movedBoard (depth - 1) (- beta) (- alpha)
                         (s\<lparr>orderingInfo := incrementPly (orderingInfo s)\<rparr>);
             s2 = s1\<lparr>orderingInfo := deincrementPly (orderingInfo s1)\<rparr>;
             currScore = - v;
             (lim, s3) = limitsReached P s2
         in if lim then (alpha, bestMv, s3\<lparr>stop := True\<rparr>)
            else if currScore > alpha then
              (if currScore = INFTY P then (currScore, m, s3)
               else rootLoop P b depth ms currScore beta m s3)
            else rootLoop P b depth ms alpha beta bestMv s3))"

definition rootMax :: "params \<Rightarrow> board \<Rightarrow> int \<Rightarrow> search \<Rightarrow> search" where
  "rootMax P b depth s =
    (let legalMoves = getLegalMoves b;
         s0 = s\<lparr>nodes := 0\<rparr>
     in if legalMoves = [] then s0\<lparr>bestMove := Move, bestScore := - INFTY P\<rparr>
        else
          (let movePicker = GeneralMovePicker P (orderingInfo s0) (tt s0) b legalMoves;
               (alpha, bestMv, s1) = rootLoop P b depth movePicker (- INFTY P) (INFTY P) Move s0;
               bestMv' = (if NULL_MOVE \<in> getFlags bestMv then hd legalMoves else bestMv)
           in if \<not> stop s1 then
                (let ttEntry = TranspTableEntry alpha depth EXACT bestMv'
                 in s1\<lparr>tt := tt_set (tt s1) (getZKey b) ttEntry,
                       bestMove := bestMv', bestScore := alpha\<rparr>)
              else s1))"

section \<open>Principal variation and reporting\<close>

text \<open>
  \<open>Search::_getPv\<close> follows the cached best moves from the root. A cached move that is
  not a legal move of the position it is applied to leads outside the tree; the walk
  ends there.
\<close>

fun getPvFrom :: "transp_table \<Rightarrow> board \<Rightarrow> nat \<Rightarrow> move list" where
  "getPvFrom t currBoard 0 = []"
| "getPvFrom t currBoard (Suc n) =
    (case t (getZKey currBoard) of
       None \<Rightarrow> []
     | Some currEntry \<Rightarrow>
         getBestMove currEntry #
           (case doMove currBoard (getBestMove currEntry) of
              None \<Rightarrow> []
            | Some nextBoard \<Rightarrow> getPvFrom t nextBoard n))"

definition getPv :: "search \<Rightarrow> int \<Rightarrow> move list" where
  "getPv s len = getPvFrom (tt s) (board s) (nat len)"

text \<open>
  \<open>Search::_logUciInfo\<close>. The second test of the score reads the member \<open>_bestScore\<close>,
  as the source does. The product \<open>nodes * 1000\<close> is a 32-bit product.
\<close>

definition logUciInfo ::
  "params \<Rightarrow> move list \<Rightarrow> int \<Rightarrow> move \<Rightarrow> int \<Rightarrow> int \<Rightarrow> int \<Rightarrow> search \<Rightarrow> search" where
  "logUciInfo P pv depth bestMv bestSc nodeCount elapsed s =
    (let scoreString =
           (if bestSc = INFTY P then Mate (length pv)
            else if bestScore s = - INFTY P then MateNeg (length pv)
            else Cp bestSc);
         elapsed' = elapsed + 1;
         nps = sint (word_of_int (nodeCount * 1000) :: 32 word) sdiv elapsed'
     in s\<lparr>uciOut := uciOut s @ [InfoLine depth nodeCount scoreString nps elapsed' pv]\<rparr>)"

definition Search_getBestMove :: "search \<Rightarrow> move" where
  "Search_getBestMove s = bestMove s"

definition Search_getBestScore :: "search \<Rightarrow> int" where
  "Search_getBestScore s = bestScore s"

definition Search_stop :: "search \<Rightarrow> search" where
  "Search_stop s = s\<lparr>stop := True\<rparr>"

section \<open>Iterative deepening\<close>

text \<open>
  \<open>Search::iterDeep\<close>. \<open>iterLoop\<close> is its \<open>for\<close> loop from \<open>currDepth\<close> on; it
  ends because no iteration changes \<open>_searchDepth\<close>. The clock of the model counts
  from the start of the search, so the assignment to \<open>_start\<close> leaves no trace.
\<close>

function iterLoop :: "params \<Rightarrow> int \<Rightarrow> search \<Rightarrow> search" where
  "iterLoop P currDepth s =
    (if currDepth \<le> searchDepth s then
       (let s1 = rootMax P (board s) currDepth s;
            elapsed = elapsedAt P (clockReads s1);
            s2 = s1\<lparr>clockReads := clockReads s1 + 1\<rparr>
        in if stop s2 then s2
           else
             (let s3 = (if logUci s2
                        then logUciInfo P (getPv s2 currDepth) currDepth (bestMove s2)
                               (bestScore s2) (nodes s2) elapsed s2
                        else s2)
              in if elapsed \<ge> timeAllocated s3 sdiv 2 then s3
                 else iterLoop P (currDepth + 1) s3))
     else s)"
  by pat_completeness auto

definition iterDeep :: "params \<Rightarrow> search \<Rightarrow> search" where
  "iterDeep P s =
    (let s1 = iterLoop P 1 s
     in if logUci s1 then s1\<lparr>uciOut := uciOut s1 @ [BestMoveLine (Search_getBestMove s1)]\<rparr>
        else s1)"

text \<open>
  The state after a completed iteration: the clock has been read and, when reporting is
  on, the progress line has been written.
\<close>

definition iterReport :: "params \<Rightarrow> int \<Rightarrow> search \<Rightarrow> search" where
  "iterReport P currDepth s1 =
    (let elapsed = elapsedAt P (clockReads s1);
         s2 = s1\<lparr>clockReads := clockReads s1 + 1\<rparr>
     in if logUci s2
        then logUciInfo P (getPv s2 currDepth) currDepth (bestMove s2) (bestScore s2)
               (nodes s2) elapsed s2
        else s2)"

section \<open>The cache probe in the words of the specification\<close>

text \<open>
  The cache probe in the words of the specification: an entry whose stored depth is below
  the requested depth is ignored; an \<open>EXACT\<close> entry returns its score; a
  \<open>LOWER_BOUND\<close> entry raises alpha to at least its score and an \<open>UPPER_BOUND\<close> entry
  lowers beta to at most its score, and an empty window after that returns the stored
  score.
\<close>

datatype probe_result = Return int | Continue int int

definition probeSpec :: "tt_entry option \<Rightarrow> int \<Rightarrow> int \<Rightarrow> int \<Rightarrow> probe_result" where
  "probeSpec entry depth alpha beta =
    (case entry of
       None \<Rightarrow> Continue alpha beta
     | Some e \<Rightarrow>
         if getDepth e < depth then Continue alpha beta
         else if getFlag e = EXACT then Return (getScore e)
         else
           (let alpha' = (if getFlag e = LOWER_BOUND then max alpha (getScore e) else alpha);
                beta' = (if getFlag e = UPPER_BOUND then min beta (getScore e) else beta)
            in if alpha' \<ge> beta' then Return (getScore e) else Continue alpha' beta'))"

section \<open>Predicates on the game tree\<close>




text \<open>
  \<open>noNullMoves\<close>: no legal move anywhere in the tree carries the null-move flag (the move
  generator yields real moves). \<open>ttNoNull\<close>: no entry of the cache holds a null move.
\<close>

fun noNullMoves :: "board \<Rightarrow> bool" where
  "noNullMoves (Board k a chk ev succs) =
     (\<forall>(m, c) \<in> set succs. NULL_MOVE \<notin> getFlags m \<and> noNullMoves c)"

definition ttNoNull :: "transp_table \<Rightarrow> bool" where
  "ttNoNull t \<longleftrightarrow> (\<forall>k e. t k = Some e \<longrightarrow> NULL_MOVE \<notin> getFlags (getBestMove e))"

section \<open>Relations between states\<close>

text \<open>
  Relations between the state before and the state after a step of the search, and what
  it takes for such a relation to hold across a whole search.
  \<open>pollClosed\<close>: the relation is reflexive and transitive and holds across the limit
  check. \<open>countClosed\<close>: it holds across the limit check followed by the node count.
  \<open>searchClosed\<close>: it holds across a child call bracketed by the ply increment and
  decrement, across the beta cutoff, across the store after the loop and across the
  quiescence search at the depth floor, for the calls that a predicate \<open>B\<close> on the
  remaining depth and the position admits.
  The relations themselves: the configuration and the output are unchanged
  (\<open>sameConfig\<close>), and so is the committed result (\<open>sameResult\<close>), the ply counter
  (\<open>samePly\<close>), the node counter (\<open>sameNodes\<close>), the cache (\<open>sameTt\<close>); a cache
  without null moves stays so (\<open>keepsNoNull\<close>); the stop flag stays set
  (\<open>stopKept\<close>); the bound \<open>capInv\<close> on the node counter is kept (\<open>capKept\<close>).
\<close>

definition pollClosed :: "params \<Rightarrow> (search \<Rightarrow> search \<Rightarrow> bool) \<Rightarrow> bool" where
  "pollClosed P R \<longleftrightarrow>
     (\<forall>s. R s s) \<and>
     (\<forall>s s1 s2. R s s1 \<longrightarrow> R s1 s2 \<longrightarrow> R s s2) \<and>
     (\<forall>s s1. limitsReached P s = (True, s1) \<longrightarrow> R s (s1\<lparr>stop := True\<rparr>)) \<and>
     (\<forall>s s1. limitsReached P s = (False, s1) \<longrightarrow> R s s1)"

definition countClosed :: "params \<Rightarrow> (search \<Rightarrow> search \<Rightarrow> bool) \<Rightarrow> bool" where
  "countClosed P R \<longleftrightarrow>
     (\<forall>s s1. limitsReached P s = (False, s1) \<longrightarrow> R s (s1\<lparr>nodes := nodes s1 + 1\<rparr>))"

definition searchClosed ::
  "params \<Rightarrow> (int \<Rightarrow> board \<Rightarrow> bool) \<Rightarrow> (search \<Rightarrow> search \<Rightarrow> bool) \<Rightarrow> bool" where
  "searchClosed P B R \<longleftrightarrow>
     (\<forall>s s1. R (s\<lparr>orderingInfo := incrementPly (orderingInfo s)\<rparr>) s1 \<longrightarrow>
         R s (s1\<lparr>orderingInfo := deincrementPly (orderingInfo s1)\<rparr>)) \<and>
     (\<forall>b m c depth score s. B depth b \<longrightarrow> doMove b m = Some c \<longrightarrow>
         R s (betaCutoff P b depth m score s)) \<and>
     (\<forall>b depth alphaOrig alpha bestMv s.
         B depth b \<longrightarrow> getLegalMoves b \<noteq> [] \<longrightarrow> (bestMv = Move \<or> doMove b bestMv \<noteq> None) \<longrightarrow>
         R s (storeResult b depth (getLegalMoves b) alphaOrig alpha bestMv s)) \<and>
     (\<forall>b alpha beta s. B 0 b \<longrightarrow> getLegalMoves b \<noteq> [] \<longrightarrow>
         R s (snd (qSearch P b alpha beta s))) \<and>
     (\<forall>b m c depth. B depth b \<longrightarrow> doMove b m = Some c \<longrightarrow> B (depth - 1) c)"

definition sameConfig :: "search \<Rightarrow> search \<Rightarrow> bool" where
  "sameConfig s s' \<longleftrightarrow>
     limits s' = limits s \<and> board s' = board s \<and> logUci s' = logUci s \<and>
     searchDepth s' = searchDepth s \<and> timeAllocated s' = timeAllocated s \<and>
     uciOut s' = uciOut s"

definition sameResult :: "search \<Rightarrow> search \<Rightarrow> bool" where
  "sameResult s s' \<longleftrightarrow> sameConfig s s' \<and> bestMove s' = bestMove s \<and> bestScore s' = bestScore s"

definition samePly :: "search \<Rightarrow> search \<Rightarrow> bool" where
  "samePly s s' \<longleftrightarrow> getPly (orderingInfo s') = getPly (orderingInfo s)"


definition keepsNoNull :: "search \<Rightarrow> search \<Rightarrow> bool" where
  "keepsNoNull s s' \<longleftrightarrow> (ttNoNull (tt s) \<longrightarrow> ttNoNull (tt s'))"


definition capInv :: "search \<Rightarrow> bool" where
  "capInv s \<longleftrightarrow>
     0 < l_nodes (limits s) \<and> 0 \<le> limitCheckCount s \<and> limitCheckCount s \<le> 4096 \<and>
     nodes s \<le> l_nodes (limits s) + 4096 \<and>
     (stop s \<or> nodes s + limitCheckCount s \<le> l_nodes (limits s) + 4096)"



section \<open>Example positions\<close>

text \<open>
  A small game tree, limits and parameters on which the search can be run by the
  simplifier. The pickers of the example hand out the legal moves in the move generator's
  order, the capture picker only those flagged as captures; the clock stands still.
\<close>

definition exampleParams :: params where
  "exampleParams =
     \<lparr>INFTY = 1000000, MAX_SEARCH_DEPTH = 64, DEFAULT_SEARCH_DEPTH = 4,
      SUDDEN_DEATH_MOVESTOGO = 30,
      GeneralMovePicker = (\<lambda>oi t b ms. ms),
      CaptureMovePicker = (\<lambda>ms. filter (\<lambda>m. CAPTURE \<in> getFlags m) ms),
      historyBonus = (\<lambda>d. d * d),
      elapsedAt = (\<lambda>n. 0)\<rparr>"

definition depthLimits :: "int \<Rightarrow> limits" where
  "depthLimits d =
     \<lparr>l_infinite = False, l_depth = d, l_time = (\<lambda>_. 0), l_increment = (\<lambda>_. 0),
      l_movesToGo = 0, l_nodes = 0\<rparr>"


definition quietMove :: move where
  "quietMove = \<lparr>getFrom = 12, getTo = 28, getFlags = {}\<rparr>"

definition captureMove :: move where
  "captureMove = \<lparr>getFrom = 28, getTo = 35, getFlags = {CAPTURE}\<rparr>"

definition stalemateBoard :: board where
  "stalemateBoard = Board 3 WHITE (\<lambda>_. False) (\<lambda>_. 0) []"

definition checkmateBoard :: board where
  "checkmateBoard = Board 4 WHITE (\<lambda>c. c = WHITE) (\<lambda>_. 0) []"

definition quietBoard :: board where
  "quietBoard = Board 2 BLACK (\<lambda>_. False) (\<lambda>_. 100) [(quietMove, stalemateBoard)]"

definition captureBoard :: board where
  "captureBoard = Board 5 BLACK (\<lambda>_. False) (\<lambda>_. 20) [(captureMove, stalemateBoard)]"

definition startBoard :: board where
  "startBoard = Board 1 WHITE (\<lambda>_. False) (\<lambda>_. 0)
     [(quietMove, quietBoard), (captureMove, captureBoard)]"

definition startSearch :: "board \<Rightarrow> search" where
  "startSearch b = Search exampleParams b (depthLimits 2) False 0"

definition cachedSearch :: "tt_flag \<Rightarrow> search" where
  "cachedSearch flg =
     (startSearch startBoard)
       \<lparr>tt := [getZKey quietBoard \<mapsto> TranspTableEntry 40 3 flg quietMove]\<rparr>"

definition polled :: "search \<Rightarrow> search" where
  "polled s = s\<lparr>limitCheckCount := 4096, clockReads := clockReads s + 1\<rparr>"











section \<open>Termination of the search\<close>

text \<open>
  Every recursive call of the search is on a successor of the position, or on the same
  position with a shorter list of moves left.
\<close>

lemma doMove_size: "doMove b m = Some c \<Longrightarrow> size c < size b"
proof -
  assume "doMove b m = Some c"
  then have "(m, c) \<in> set (successors b)"
    by (auto simp: doMove_def dest: map_of_SomeD)
  then have "size c < Suc (size_list (size_prod (\<lambda>_. 0) size) (successors b))"
    by (induction "successors b" arbitrary: b) (auto simp: less_Suc_eq_le dest!: split_list)
  then show ?thesis by (cases b) simp
qed

termination qSearch
  by (relation "measures
         [\<lambda>x. case x of
            Inl (P, b, _) \<Rightarrow> size b
          | Inr (P, b, _) \<Rightarrow> size b,
          \<lambda>x. case x of
            Inl _ \<Rightarrow> 1
          | Inr _ \<Rightarrow> 0,
          \<lambda>x. case x of
            Inr (P, b, ms, _) \<Rightarrow> length ms
          | _ \<Rightarrow> 0]")
     (auto simp: doMove_size)

termination negaMax
  by (relation "measures
         [\<lambda>x. case x of
            Inl (P, b, _) \<Rightarrow> size b
          | Inr (Inl (P, b, _)) \<Rightarrow> size b
          | Inr (Inr (P, b, _)) \<Rightarrow> size b,
          \<lambda>x. case x of
            Inl _ \<Rightarrow> 2
          | Inr (Inl _) \<Rightarrow> 1
          | Inr (Inr _) \<Rightarrow> 0,
          \<lambda>x. case x of
            Inr (Inr (P, b, d, lm, ms, _)) \<Rightarrow> length ms
          | _ \<Rightarrow> 0]")
     (auto simp: doMove_size)

section \<open>The branches of the search functions\<close>

text \<open>
  One equation per exit path of \<open>_qSearch\<close> and \<open>_negaMax\<close>, in the order of the
  source. The defining equations are taken out of the simplifier's set: they unfold
  without end.
\<close>

declare qSearch.simps [simp del] negaMax.simps [simp del] negaMoves.simps [simp del]

lemma qSearch_halt:
  "limitsReached P s = (True, s1) \<Longrightarrow> qSearch P b alpha beta s = (0, s1\<lparr>stop := True\<rparr>)"
  by (simp add: qSearch.simps)

lemma qSearch_terminal:
  "limitsReached P s = (False, s1) \<Longrightarrow> getLegalMoves b = [] \<Longrightarrow>
   qSearch P b alpha beta s =
     (if colorIsInCheck b (getActivePlayer b) then - INFTY P else 0, s1)"
  by (simp add: qSearch.simps)

lemma qSearch_quiet:
  "limitsReached P s = (False, s1) \<Longrightarrow> getLegalMoves b \<noteq> [] \<Longrightarrow>
   CaptureMovePicker P (getLegalMoves b) = [] \<Longrightarrow>
   qSearch P b alpha beta s = (evalScore b (getActivePlayer b), s1\<lparr>nodes := nodes s1 + 1\<rparr>)"
  by (simp add: qSearch.simps)

lemma qSearch_standPat_cutoff:
  "limitsReached P s = (False, s1) \<Longrightarrow> getLegalMoves b \<noteq> [] \<Longrightarrow>
   CaptureMovePicker P (getLegalMoves b) \<noteq> [] \<Longrightarrow> evalScore b (getActivePlayer b) \<ge> beta \<Longrightarrow>
   qSearch P b alpha beta s = (beta, s1\<lparr>nodes := nodes s1 + 1\<rparr>)"
  by (simp add: qSearch.simps)

lemma qSearch_captures:
  "limitsReached P s = (False, s1) \<Longrightarrow> getLegalMoves b \<noteq> [] \<Longrightarrow>
   CaptureMovePicker P (getLegalMoves b) \<noteq> [] \<Longrightarrow> \<not> evalScore b (getActivePlayer b) \<ge> beta \<Longrightarrow>
   qSearch P b alpha beta s =
     qLoop P b (CaptureMovePicker P (getLegalMoves b))
       (if alpha < evalScore b (getActivePlayer b) then evalScore b (getActivePlayer b) else alpha)
       beta (s1\<lparr>nodes := nodes s1 + 1\<rparr>)"
  by (simp add: qSearch.simps Let_def)

lemma qLoop_skip:
  "doMove b m = None \<Longrightarrow> qLoop P b (m # ms) alpha beta s = qLoop P b ms alpha beta s"
  by simp

declare qLoop.simps(2) [simp del]

lemma qLoop_step:
  "doMove b m = Some c \<Longrightarrow> qSearch P c (- beta) (- alpha) s = (v, s1) \<Longrightarrow>
   qLoop P b (m # ms) alpha beta s =
     (if - v \<ge> beta then (beta, s1)
      else qLoop P b ms (if - v > alpha then - v else alpha) beta s1)"
  by (simp add: qLoop.simps(2))

lemma negaMax_halt:
  "limitsReached P s = (True, s1) \<Longrightarrow> negaMax P b depth alpha beta s = (0, s1\<lparr>stop := True\<rparr>)"
  by (simp add: negaMax.simps)

lemma negaMax_probe_return:
  "limitsReached P s = (False, s1) \<Longrightarrow> ttProbe (tt s1 (getZKey b)) depth alpha beta = Inl v \<Longrightarrow>
   negaMax P b depth alpha beta s = (v, s1)"
  by (simp add: negaMax.simps)

lemma negaMax_probe_continue:
  "limitsReached P s = (False, s1) \<Longrightarrow>
   ttProbe (tt s1 (getZKey b)) depth alpha beta = Inr (alpha', beta') \<Longrightarrow>
   negaMax P b depth alpha beta s = negaMoves P b depth alpha alpha' beta' s1"
  by (simp add: negaMax.simps)

lemma negaMoves_terminal:
  "getLegalMoves b = [] \<Longrightarrow>
   negaMoves P b depth alphaOrig alpha beta s =
     (if colorIsInCheck b (getActivePlayer b) then - INFTY P else 0, s)"
  by (simp add: negaMoves.simps)

lemma negaMoves_floor:
  "getLegalMoves b \<noteq> [] \<Longrightarrow>
   negaMoves P b 0 alphaOrig alpha beta s = qSearch P b alpha beta s"
  by (simp add: negaMoves.simps)

lemma negaMoves_loop:
  "getLegalMoves b \<noteq> [] \<Longrightarrow> depth \<noteq> 0 \<Longrightarrow>
   negaMoves P b depth alphaOrig alpha beta s =
     negaLoop P b depth (getLegalMoves b)
       (GeneralMovePicker P (orderingInfo s) (tt s) b (getLegalMoves b)) alphaOrig alpha beta Move s"
  by (simp add: negaMoves.simps Let_def)

lemma negaLoop_skip:
  "doMove b m = None \<Longrightarrow>
   negaLoop P b depth legalMoves (m # ms) alphaOrig alpha beta bestMv s =
     negaLoop P b depth legalMoves ms alphaOrig alpha beta bestMv s"
  by simp

lemma negaLoop_step:
  "doMove b m = Some c \<Longrightarrow>
   negaMax P c (depth - 1) (- beta) (- alpha)
     (s\<lparr>orderingInfo := incrementPly (orderingInfo s)\<rparr>) = (v, s1) \<Longrightarrow>
   s2 = s1\<lparr>orderingInfo := deincrementPly (orderingInfo s1)\<rparr> \<Longrightarrow>
   negaLoop P b depth legalMoves (m # ms) alphaOrig alpha beta bestMv s =
     (if - v \<ge> beta then (beta, betaCutoff P b depth m (- v) s2)
      else if - v > alpha then negaLoop P b depth legalMoves ms alphaOrig (- v) beta m s2
      else negaLoop P b depth legalMoves ms alphaOrig alpha beta bestMv s2)"
  by (simp add: Let_def)

declare negaLoop.simps(2) [simp del]

section \<open>Properties kept by every step of a search\<close>

text \<open>
  A relation between the state before and the state after that is reflexive and
  transitive and holds across the limit check (\<open>pollClosed\<close>) and across the limit
  check followed by the node count (\<open>countClosed\<close>) holds across a whole quiescence
  search.
\<close>

lemma pollClosed_refl: "pollClosed P R \<Longrightarrow> R s s"
  by (simp add: pollClosed_def)

lemma pollClosed_trans: "pollClosed P R \<Longrightarrow> R s s1 \<Longrightarrow> R s1 s2 \<Longrightarrow> R s s2"
  unfolding pollClosed_def by blast

lemma pollClosed_halt:
  "pollClosed P R \<Longrightarrow> limitsReached P s = (True, s1) \<Longrightarrow> R s (s1\<lparr>stop := True\<rparr>)"
  unfolding pollClosed_def by blast

lemma pollClosed_pass: "pollClosed P R \<Longrightarrow> limitsReached P s = (False, s1) \<Longrightarrow> R s s1"
  unfolding pollClosed_def by blast

lemma countClosed_count:
  "countClosed P R \<Longrightarrow> limitsReached P s = (False, s1) \<Longrightarrow> R s (s1\<lparr>nodes := nodes s1 + 1\<rparr>)"
  unfolding countClosed_def by blast

lemma qSearch_qLoop_closure:
  "pollClosed P R \<Longrightarrow> countClosed P R \<Longrightarrow> R s (snd (qSearch P b alpha beta s))"
  "pollClosed P R \<Longrightarrow> countClosed P R \<Longrightarrow> R s (snd (qLoop P b ms alpha beta s))"
proof (induction P b alpha beta s and P b ms alpha beta s rule: qSearch_qLoop.induct)
  case (1 P b alpha beta s)
  note pc = "1.prems"
  obtain lim s1 where L: "limitsReached P s = (lim, s1)"
    by (cases "limitsReached P s")
  let ?s2 = "s1\<lparr>nodes := nodes s1 + 1\<rparr>"
  let ?sp = "evalScore b (getActivePlayer b)"
  let ?caps = "CaptureMovePicker P (getLegalMoves b)"
  consider (halt) "lim"
    | (terminal) "\<not> lim" "getLegalMoves b = []"
    | (quiet) "\<not> lim" "getLegalMoves b \<noteq> []" "?caps = []"
    | (cut) "\<not> lim" "getLegalMoves b \<noteq> []" "?caps \<noteq> []" "?sp \<ge> beta"
    | (loop) "\<not> lim" "getLegalMoves b \<noteq> []" "?caps \<noteq> []" "\<not> ?sp \<ge> beta"
    by blast
  then show ?case
  proof cases
    case halt
    then show ?thesis using L pollClosed_halt[OF pc(1)] by (simp add: qSearch_halt)
  next
    case terminal
    then show ?thesis using L pollClosed_pass[OF pc(1)] by (simp add: qSearch_terminal)
  next
    case quiet
    then show ?thesis using L countClosed_count[OF pc(2)] by (simp add: qSearch_quiet)
  next
    case cut
    then show ?thesis using L countClosed_count[OF pc(2)] by (simp add: qSearch_standPat_cutoff)
  next
    case loop
    have c: "R s ?s2" using L loop(1) countClosed_count[OF pc(2)] by simp
    have "R ?s2 (snd (qLoop P b ?caps (if alpha < ?sp then ?sp else alpha) beta ?s2))"
      using "1.IH"[OF refl L[symmetric] loop(1,2) refl refl refl loop(3,4) pc] .
    with c have "R s (snd (qLoop P b ?caps (if alpha < ?sp then ?sp else alpha) beta ?s2))"
      by (rule pollClosed_trans[OF pc(1)])
    then show ?thesis using L loop by (simp add: qSearch_captures)
  qed
next
  case (2 P b alpha beta s)
  then show ?case by (simp add: pollClosed_refl)
next
  case (3 P b m ms alpha beta s)
  note pc = "3.prems"
  show ?case
  proof (cases "doMove b m")
    case None
    then show ?thesis using "3.IH"(1) pc by (simp add: qLoop_skip)
  next
    case (Some c)
    obtain v s1 where Q: "qSearch P c (- beta) (- alpha) s = (v, s1)"
      by (cases "qSearch P c (- beta) (- alpha) s")
    have r1: "R s s1" using "3.IH"(2)[OF Some pc] Q by simp
    show ?thesis
    proof (cases "- v \<ge> beta")
      case True
      then show ?thesis using r1 by (simp add: qLoop_step[OF Some Q])
    next
      case False
      have "R s1 (snd (qLoop P b ms (if alpha < - v then - v else alpha) beta s1))"
        using "3.IH"(3)[OF Some refl Q[symmetric] refl False pc] .
      with r1 have "R s (snd (qLoop P b ms (if alpha < - v then - v else alpha) beta s1))"
        by (rule pollClosed_trans[OF pc(1)])
      then show ?thesis using False by (simp add: qLoop_step[OF Some Q])
    qed
  qed
qed

text \<open>
  The same for NegaMax: the relation has to hold across a child call bracketed by the ply
  increment and decrement, across the beta cutoff, across the store after the loop and
  across the quiescence search at the depth floor (\<open>searchClosed\<close>). A predicate \<open>B\<close>
  on the remaining depth and the position, which every successor inherits at one ply
  less, may restrict the calls considered; the move stored after the loop is the null
  move or a legal move of the position.
\<close>

lemma searchClosed_bracket:
  "searchClosed P B R \<Longrightarrow> R (s\<lparr>orderingInfo := incrementPly (orderingInfo s)\<rparr>) s1 \<Longrightarrow>
   R s (s1\<lparr>orderingInfo := deincrementPly (orderingInfo s1)\<rparr>)"
  unfolding searchClosed_def by simp

lemma searchClosed_cutoff:
  "searchClosed P B R \<Longrightarrow> B depth b \<Longrightarrow> doMove b m = Some c \<Longrightarrow>
   R s (betaCutoff P b depth m score s)"
  unfolding searchClosed_def by simp

lemma searchClosed_store:
  "searchClosed P B R \<Longrightarrow> B depth b \<Longrightarrow> getLegalMoves b \<noteq> [] \<Longrightarrow>
   bestMv = Move \<or> doMove b bestMv \<noteq> None \<Longrightarrow>
   R s (storeResult b depth (getLegalMoves b) alphaOrig alpha bestMv s)"
  unfolding searchClosed_def by auto

lemma searchClosed_floor:
  "searchClosed P B R \<Longrightarrow> B 0 b \<Longrightarrow> getLegalMoves b \<noteq> [] \<Longrightarrow>
   R s (snd (qSearch P b alpha beta s))"
  unfolding searchClosed_def by simp

lemma searchClosed_child:
  "searchClosed P B R \<Longrightarrow> B depth b \<Longrightarrow> doMove b m = Some c \<Longrightarrow> B (depth - 1) c"
  unfolding searchClosed_def by simp

lemma negaMax_closure:
  "pollClosed P R \<Longrightarrow> searchClosed P B R \<Longrightarrow> B depth b \<Longrightarrow>
     R s (snd (negaMax P b depth alpha beta s))"
  "pollClosed P R \<Longrightarrow> searchClosed P B R \<Longrightarrow> B depth b \<Longrightarrow>
     R s (snd (negaMoves P b depth alphaOrig alpha beta s))"
  "pollClosed P R \<Longrightarrow> searchClosed P B R \<Longrightarrow> B depth b \<Longrightarrow>
     legalMoves = getLegalMoves b \<Longrightarrow> legalMoves \<noteq> [] \<Longrightarrow>
     bestMv = Move \<or> doMove b bestMv \<noteq> None \<Longrightarrow>
     R s (snd (negaLoop P b depth legalMoves ms alphaOrig alpha beta bestMv s))"
proof (induction P b depth alpha beta s and P b depth alphaOrig alpha beta s
    and P b depth legalMoves ms alphaOrig alpha beta bestMv s rule: negaMax_negaMoves_negaLoop.induct)
  case (1 P b depth alpha beta s)
  note pc = "1.prems"
  obtain lim s1 where L: "limitsReached P s = (lim, s1)"
    by (cases "limitsReached P s")
  show ?case
  proof (cases lim)
    case True
    then show ?thesis using L pollClosed_halt[OF pc(1)] by (simp add: negaMax_halt)
  next
    case False
    have r1: "R s s1" using L False pollClosed_pass[OF pc(1)] by simp
    show ?thesis
    proof (cases "ttProbe (tt s1 (getZKey b)) depth alpha beta")
      case (Inl v)
      then show ?thesis using L False r1 by (simp add: negaMax_probe_return)
    next
      case (Inr w)
      obtain alpha' beta' where w: "w = (alpha', beta')" by (cases w)
      have "R s1 (snd (negaMoves P b depth alpha alpha' beta' s1))"
        using "1.IH"[OF refl L[symmetric] False refl Inr w[symmetric] pc] .
      with r1 have "R s (snd (negaMoves P b depth alpha alpha' beta' s1))"
        by (rule pollClosed_trans[OF pc(1)])
      then show ?thesis using L False Inr w by (simp add: negaMax_probe_continue)
    qed
  qed
next
  case (2 P b depth alphaOrig alpha beta s)
  note pc = "2.prems"
  consider (terminal) "getLegalMoves b = []"
    | (floor) "getLegalMoves b \<noteq> []" "depth = 0"
    | (loop) "getLegalMoves b \<noteq> []" "depth \<noteq> 0"
    by blast
  then show ?case
  proof cases
    case terminal
    then show ?thesis using pollClosed_refl[OF pc(1)] by (simp add: negaMoves_terminal)
  next
    case floor
    then show ?thesis using searchClosed_floor[OF pc(2)] pc(3) by (simp add: negaMoves_floor)
  next
    case loop
    have "R s (snd (negaLoop P b depth (getLegalMoves b)
        (GeneralMovePicker P (orderingInfo s) (tt s) b (getLegalMoves b)) alphaOrig alpha beta Move s))"
      using "2.IH"[OF refl loop pc refl loop(1)] by simp
    then show ?thesis using loop by (simp add: negaMoves_loop)
  qed
next
  case (3 P b depth legalMoves alphaOrig alpha beta bestMv s)
  then show ?case
    using searchClosed_store[of P B R depth b bestMv s alphaOrig alpha] by simp
next
  case (4 P b depth legalMoves m ms alphaOrig alpha beta bestMv s)
  note pc = "4.prems"
  show ?case
  proof (cases "doMove b m")
    case None
    then show ?thesis using "4.IH"(1)[OF None pc] by (simp add: negaLoop_skip)
  next
    case (Some c)
    let ?s0 = "s\<lparr>orderingInfo := incrementPly (orderingInfo s)\<rparr>"
    obtain v s1 where N: "negaMax P c (depth - 1) (- beta) (- alpha) ?s0 = (v, s1)"
      by (cases "negaMax P c (depth - 1) (- beta) (- alpha) ?s0")
    define s2 where "s2 = s1\<lparr>orderingInfo := deincrementPly (orderingInfo s1)\<rparr>"
    have Bc: "B (depth - 1) c" using searchClosed_child[OF pc(2,3) Some] .
    have "R ?s0 s1" using "4.IH"(2)[OF Some pc(1,2) Bc] N by simp
    then have r2: "R s s2" unfolding s2_def by (rule searchClosed_bracket[OF pc(2)])
    note step = negaLoop_step[OF Some N s2_def]
    consider (cut) "- v \<ge> beta" | (raise) "\<not> - v \<ge> beta" "- v > alpha"
      | (keep) "\<not> - v \<ge> beta" "\<not> - v > alpha"
      by blast
    then show ?thesis
    proof cases
      case cut
      have "R s2 (betaCutoff P b depth m (- v) s2)"
        using searchClosed_cutoff[OF pc(2,3) Some] .
      with r2 have "R s (betaCutoff P b depth m (- v) s2)"
        by (rule pollClosed_trans[OF pc(1)])
      then show ?thesis using cut by (simp add: step)
    next
      case raise
      have "R s2 (snd (negaLoop P b depth legalMoves ms alphaOrig (- v) beta m s2))"
        using "4.IH"(3)[OF Some refl N[symmetric] s2_def refl raise pc(1,2,3,4,5)] Some by simp
      with r2 have "R s (snd (negaLoop P b depth legalMoves ms alphaOrig (- v) beta m s2))"
        by (rule pollClosed_trans[OF pc(1)])
      then show ?thesis using raise by (simp add: step)
    next
      case keep
      have "R s2 (snd (negaLoop P b depth legalMoves ms alphaOrig alpha beta bestMv s2))"
        using "4.IH"(4)[OF Some refl N[symmetric] s2_def refl keep pc] .
      with r2 have "R s (snd (negaLoop P b depth legalMoves ms alphaOrig alpha beta bestMv s2))"
        by (rule pollClosed_trans[OF pc(1)])
      then show ?thesis using keep by (simp add: step)
    qed
  qed
qed


lemma limitsReached_sameResult: "limitsReached P s = (r, s1) \<Longrightarrow> sameResult s s1"
  by (auto simp: limitsReached_def checkLimits_def sameResult_def sameConfig_def Let_def
      split: if_splits)

lemma pollClosed_sameResult: "pollClosed P sameResult"
  unfolding pollClosed_def
proof (intro conjI allI impI)
  fix s s1 assume "limitsReached P s = (True, s1)"
  from limitsReached_sameResult[OF this] show "sameResult s (s1\<lparr>stop := True\<rparr>)"
    by (simp add: sameResult_def sameConfig_def)
qed (auto simp: sameResult_def sameConfig_def dest: limitsReached_sameResult)

lemma countClosed_sameResult: "countClosed P sameResult"
  unfolding countClosed_def
proof (intro allI impI)
  fix s s1 assume "limitsReached P s = (False, s1)"
  from limitsReached_sameResult[OF this] show "sameResult s (s1\<lparr>nodes := nodes s1 + 1\<rparr>)"
    by (simp add: sameResult_def sameConfig_def)
qed

lemma qSearch_sameResult: "sameResult s (snd (qSearch P b alpha beta s))"
  by (rule qSearch_qLoop_closure(1)[OF pollClosed_sameResult countClosed_sameResult])

lemma searchClosed_sameResult: "searchClosed P (\<lambda>_ _. True) sameResult"
  unfolding searchClosed_def
  by (simp add: sameResult_def sameConfig_def betaCutoff_def storeResult_def Let_def
      qSearch_sameResult[unfolded sameResult_def sameConfig_def])


text \<open>
  The ply counter (\<open>samePly\<close>), and the node counter in a search that stays above the
  depth floor (\<open>sameNodes\<close>).
\<close>

lemma limitsReached_frame:
  assumes "limitsReached P s = (r, s1)"
  shows "orderingInfo s1 = orderingInfo s" and "tt s1 = tt s" and "nodes s1 = nodes s"
    and "stop s1 = stop s"
  using assms
  by (auto simp: limitsReached_def checkLimits_def Let_def split: if_splits)

lemma pollClosed_samePly: "pollClosed P samePly"
  unfolding pollClosed_def samePly_def
  by (auto dest: limitsReached_frame(1))

lemma countClosed_samePly: "countClosed P samePly"
  unfolding countClosed_def samePly_def
  by (auto dest: limitsReached_frame(1))

lemma qSearch_samePly: "samePly s (snd (qSearch P b alpha beta s))"
  by (rule qSearch_qLoop_closure(1)[OF pollClosed_samePly countClosed_samePly])

lemma searchClosed_samePly: "searchClosed P (\<lambda>_ _. True) samePly"
  unfolding searchClosed_def
  by (simp add: samePly_def betaCutoff_def storeResult_def Let_def incrementPly_def
      deincrementPly_def updateKillers_def incrementHistory_def
      qSearch_samePly[unfolded samePly_def])





lemma rootLoop_skip:
  "doMove b m = None \<Longrightarrow>
   rootLoop P b depth (m # ms) alpha beta bestMv s = rootLoop P b depth ms alpha beta bestMv s"
  by simp

lemma rootLoop_step:
  "doMove b m = Some c \<Longrightarrow>
   negaMax P c (depth - 1) (- beta) (- alpha)
     (s\<lparr>orderingInfo := incrementPly (orderingInfo s)\<rparr>) = (v, s1) \<Longrightarrow>
   s2 = s1\<lparr>orderingInfo := deincrementPly (orderingInfo s1)\<rparr> \<Longrightarrow>
   limitsReached P s2 = (lim, s3) \<Longrightarrow>
   rootLoop P b depth (m # ms) alpha beta bestMv s =
     (if lim then (alpha, bestMv, s3\<lparr>stop := True\<rparr>)
      else if - v > alpha then
        (if - v = INFTY P then (- v, m, s3) else rootLoop P b depth ms (- v) beta m s3)
      else rootLoop P b depth ms alpha beta bestMv s3)"
  by (simp add: Let_def)

declare rootLoop.simps(2) [simp del]

lemma rootLoop_closure:
  assumes pc: "pollClosed P R" "searchClosed P B R"
    and Bc: "\<And>m c. doMove b m = Some c \<Longrightarrow> B (depth - 1) c"
  shows "R s (snd (snd (rootLoop P b depth ms alpha beta bestMv s)))"
proof (induction ms arbitrary: alpha bestMv s)
  case Nil
  then show ?case by (simp add: pollClosed_refl[OF pc(1)])
next
  case (Cons m ms)
  show ?case
  proof (cases "doMove b m")
    case None
    then show ?thesis using Cons by (simp add: rootLoop_skip)
  next
    case (Some c)
    let ?s0 = "s\<lparr>orderingInfo := incrementPly (orderingInfo s)\<rparr>"
    obtain v s1 where N: "negaMax P c (depth - 1) (- beta) (- alpha) ?s0 = (v, s1)"
      by (cases "negaMax P c (depth - 1) (- beta) (- alpha) ?s0")
    define s2 where "s2 = s1\<lparr>orderingInfo := deincrementPly (orderingInfo s1)\<rparr>"
    obtain lim s3 where L: "limitsReached P s2 = (lim, s3)"
      by (cases "limitsReached P s2")
    have "R ?s0 s1"
      using negaMax_closure(1)[OF pc(1,2) Bc[OF Some], of ?s0 "- beta" "- alpha"] N by simp
    then have r2: "R s s2" unfolding s2_def by (rule searchClosed_bracket[OF pc(2)])
    note step = rootLoop_step[OF Some N s2_def L]
    show ?thesis
    proof (cases lim)
      case True
      have "R s2 (s3\<lparr>stop := True\<rparr>)" using L True pollClosed_halt[OF pc(1)] by simp
      with r2 have "R s (s3\<lparr>stop := True\<rparr>)" by (rule pollClosed_trans[OF pc(1)])
      then show ?thesis using True by (simp add: step)
    next
      case False
      have "R s2 s3" using L False pollClosed_pass[OF pc(1)] by simp
      with r2 have r3: "R s s3" by (rule pollClosed_trans[OF pc(1)])
      have rest: "R s (snd (snd (rootLoop P b depth ms a' beta bm' s3)))" for a' bm'
        using r3 Cons.IH[of s3 a' bm'] by (rule pollClosed_trans[OF pc(1)])
      show ?thesis using False r3 rest by (simp add: step)
    qed
  qed
qed

lemma rootLoop_cases:
  obtains a bm s1 where "rootLoop P b depth ms alpha beta bestMv s = (a, bm, s1)"
  by (metis prod_cases3)

lemma rootMax_terminal:
  "getLegalMoves b = [] \<Longrightarrow>
   rootMax P b depth s = s\<lparr>nodes := 0, bestMove := Move, bestScore := - INFTY P\<rparr>"
  by (simp add: rootMax_def)

lemma rootMax_abandoned:
  "getLegalMoves b \<noteq> [] \<Longrightarrow>
   rootLoop P b depth (GeneralMovePicker P (orderingInfo s) (tt s) b (getLegalMoves b))
     (- INFTY P) (INFTY P) Move (s\<lparr>nodes := 0\<rparr>) = (a, bm, s1) \<Longrightarrow> stop s1 \<Longrightarrow>
   rootMax P b depth s = s1"
  by (simp add: rootMax_def Let_def)

lemma rootMax_committed:
  "getLegalMoves b \<noteq> [] \<Longrightarrow>
   rootLoop P b depth (GeneralMovePicker P (orderingInfo s) (tt s) b (getLegalMoves b))
     (- INFTY P) (INFTY P) Move (s\<lparr>nodes := 0\<rparr>) = (a, bm, s1) \<Longrightarrow> \<not> stop s1 \<Longrightarrow>
   bm' = (if NULL_MOVE \<in> getFlags bm then hd (getLegalMoves b) else bm) \<Longrightarrow>
   rootMax P b depth s =
     s1\<lparr>tt := tt_set (tt s1) (getZKey b) (TranspTableEntry a depth EXACT bm'),
        bestMove := bm', bestScore := a\<rparr>"
  by (simp add: rootMax_def Let_def)

lemma rootMax_sameConfig: "sameConfig s (rootMax P b depth s)"
proof -
  let ?s0 = "s\<lparr>nodes := 0\<rparr>"
  have "sameResult ?s0 (snd (snd (rootLoop P b depth ms alpha beta bestMv ?s0)))"
    for ms alpha beta bestMv
    by (rule rootLoop_closure[OF pollClosed_sameResult searchClosed_sameResult TrueI])
  then show ?thesis
    by (auto simp: rootMax_def Let_def sameResult_def sameConfig_def split: prod.splits)
       (metis snd_conv)+
qed

section \<open>The loop of iterative deepening\<close>

text \<open>The loop ends: no iteration changes \<open>_searchDepth\<close>.\<close>

termination iterLoop
proof (relation "measure (\<lambda>(P, currDepth, s). nat (searchDepth s + 1 - currDepth))")
  show "wf (measure (\<lambda>(P, currDepth, s). nat (searchDepth s + 1 - currDepth)))" by simp
next
  fix P currDepth s s1 elapsed s2 s3
  assume le: "currDepth \<le> searchDepth s"
    and s1: "s1 = rootMax P (board s) currDepth s"
    and s2: "s2 = s1\<lparr>clockReads := clockReads s1 + 1\<rparr>"
    and s3: "s3 = (if logUci s2
                  then logUciInfo P (getPv s2 currDepth) currDepth (bestMove s2)
                         (bestScore s2) (nodes s2) elapsed s2
                  else s2)"
  have "searchDepth s1 = searchDepth s"
    using rootMax_sameConfig[of s P "board s" currDepth] s1 by (simp add: sameConfig_def)
  then have "searchDepth s3 = searchDepth s"
    using s2 s3 by (simp add: logUciInfo_def Let_def)
  then show "((P, currDepth + 1, s3), (P, currDepth, s)) \<in>
      measure (\<lambda>(P, currDepth, s). nat (searchDepth s + 1 - currDepth))"
    using le by simp
qed

declare iterLoop.simps [simp del]


text \<open>The branches of the loop.\<close>

lemma iterLoop_done: "\<not> currDepth \<le> searchDepth s \<Longrightarrow> iterLoop P currDepth s = s"
  by (subst iterLoop.simps) simp

lemma iterLoop_stopped:
  "currDepth \<le> searchDepth s \<Longrightarrow> s1 = rootMax P (board s) currDepth s \<Longrightarrow> stop s1 \<Longrightarrow>
   iterLoop P currDepth s = s1\<lparr>clockReads := clockReads s1 + 1\<rparr>"
  by (subst iterLoop.simps) (simp add: Let_def)

lemma iterLoop_last:
  "currDepth \<le> searchDepth s \<Longrightarrow> s1 = rootMax P (board s) currDepth s \<Longrightarrow> \<not> stop s1 \<Longrightarrow>
   s3 = iterReport P currDepth s1 \<Longrightarrow>
   elapsedAt P (clockReads s1) \<ge> timeAllocated s3 sdiv 2 \<Longrightarrow>
   iterLoop P currDepth s = s3"
  by (subst iterLoop.simps) (simp add: Let_def iterReport_def)

lemma iterLoop_next:
  "currDepth \<le> searchDepth s \<Longrightarrow> s1 = rootMax P (board s) currDepth s \<Longrightarrow> \<not> stop s1 \<Longrightarrow>
   s3 = iterReport P currDepth s1 \<Longrightarrow>
   \<not> elapsedAt P (clockReads s1) \<ge> timeAllocated s3 sdiv 2 \<Longrightarrow>
   iterLoop P currDepth s = iterLoop P (currDepth + 1) s3"
  by (subst iterLoop.simps) (simp add: Let_def iterReport_def)





lemma iterReport_frame:
  "tt (iterReport P d s) = tt s" "board (iterReport P d s) = board s"
  "bestMove (iterReport P d s) = bestMove s" "bestScore (iterReport P d s) = bestScore s"
  "stop (iterReport P d s) = stop s" "searchDepth (iterReport P d s) = searchDepth s"
  by (simp_all add: iterReport_def logUciInfo_def Let_def)

lemma iterLoop_invariant:
  "I s \<Longrightarrow> (\<And>s d. I s \<Longrightarrow> I (rootMax P (board s) d s)) \<Longrightarrow>
   (\<And>s. I s \<Longrightarrow> I (s\<lparr>clockReads := clockReads s + 1\<rparr>)) \<Longrightarrow>
   (\<And>s d. I s \<Longrightarrow> I (iterReport P d s)) \<Longrightarrow> I (iterLoop P d s)"
proof (induction P d s rule: iterLoop.induct)
  case (1 P currDepth s)
  define s1 where "s1 = rootMax P (board s) currDepth s"
  define s3 where "s3 = iterReport P currDepth s1"
  have i1: "I s1" unfolding s1_def by (rule "1.prems"(2)[OF "1.prems"(1)])
  have i3: "I s3" unfolding s3_def by (rule "1.prems"(4)[OF i1])
  consider (finished) "\<not> currDepth \<le> searchDepth s"
    | (stopped) "currDepth \<le> searchDepth s" "stop s1"
    | (last) "currDepth \<le> searchDepth s" "\<not> stop s1"
        "elapsedAt P (clockReads s1) \<ge> timeAllocated s3 sdiv 2"
    | (nxt) "currDepth \<le> searchDepth s" "\<not> stop s1"
        "\<not> elapsedAt P (clockReads s1) \<ge> timeAllocated s3 sdiv 2"
    by blast
  then show ?case
  proof cases
    case finished
    then show ?thesis using "1.prems"(1) by (simp add: iterLoop_done)
  next
    case stopped
    then show ?thesis using "1.prems"(3)[OF i1] by (simp add: iterLoop_stopped[OF _ s1_def])
  next
    case last
    then show ?thesis using i3 by (simp add: iterLoop_last[OF _ s1_def _ s3_def])
  next
    case nxt
    have eq: "iterLoop P currDepth s = iterLoop P (currDepth + 1) s3"
      using nxt by (simp add: iterLoop_next[OF _ s1_def _ s3_def])
    have s3': "s3 = (if logUci (s1\<lparr>clockReads := clockReads s1 + 1\<rparr>)
         then logUciInfo P (getPv (s1\<lparr>clockReads := clockReads s1 + 1\<rparr>) currDepth) currDepth
                (bestMove (s1\<lparr>clockReads := clockReads s1 + 1\<rparr>))
                (bestScore (s1\<lparr>clockReads := clockReads s1 + 1\<rparr>))
                (nodes (s1\<lparr>clockReads := clockReads s1 + 1\<rparr>))
                (elapsedAt P (clockReads s1)) (s1\<lparr>clockReads := clockReads s1 + 1\<rparr>)
         else s1\<lparr>clockReads := clockReads s1 + 1\<rparr>)"
      unfolding s3_def iterReport_def Let_def by simp
    have "I (iterLoop P (currDepth + 1) s3)"
    proof (rule "1.IH"[OF nxt(1) s1_def refl refl _ s3' _ i3 "1.prems"(2,3,4)])
      show "\<not> stop (s1\<lparr>clockReads := clockReads s1 + 1\<rparr>)" using nxt(2) by simp
      show "\<not> timeAllocated s3 sdiv 2 \<le> elapsedAt P (clockReads s1)" using nxt(3) by simp
    qed
    then show ?thesis unfolding eq .
  qed
qed

section \<open>The search on the examples\<close>

text \<open>Evaluation of the search on the examples, and their first limit check.\<close>

lemmas search_eval =
  negaMax.simps negaMoves.simps negaLoop.simps(2) qSearch.simps qLoop.simps(2)
  rootLoop.simps(2) rootMax_def
  limitsReached_def checkLimits_def ttProbe_def betaCutoff_def storeResult_def
  getLegalMoves_def doMove_def tt_set_def TranspTableEntry_def Move_def
  incrementPly_def deincrementPly_def updateKillers_def incrementHistory_def
  Let_def

lemmas loop_eval = iterLoop.simps iterDeep_def logUciInfo_def getPv_def Search_getBestMove_def

lemmas example_defs =
  exampleParams_def startSearch_def Search_def depthLimits_def OrderingInfo_def
  startBoard_def quietBoard_def captureBoard_def stalemateBoard_def checkmateBoard_def
  quietMove_def captureMove_def

lemma limitsReached_cachedSearch:
  "limitsReached exampleParams (cachedSearch flg) = (False, polled (cachedSearch flg))"
  by (simp add: limitsReached_def checkLimits_def cachedSearch_def startSearch_def Search_def
      depthLimits_def exampleParams_def polled_def Let_def)

lemma limitsReached_startSearch:
  "limitsReached exampleParams (startSearch b) = (False, polled (startSearch b))"
  by (simp add: limitsReached_def checkLimits_def startSearch_def Search_def
      depthLimits_def exampleParams_def polled_def Let_def)


section \<open>The claims\<close>

subsection \<open>C6: the time budget of a fixed-time search\<close>




subsection \<open>C1: the cache probe of NegaMax\<close>

lemma ttProbe_probeSpec:
  "ttProbe entry depth alpha beta =
     (case probeSpec entry depth alpha beta of
        Return v \<Rightarrow> Inl v | Continue alpha' beta' \<Rightarrow> Inr (alpha', beta'))"
  by (cases entry; cases "getFlag (the entry)")
     (simp_all add: ttProbe_def probeSpec_def Let_def)

text \<open>
  C1. In a call of NegaMax that has passed the limit check, the cache probe behaves as
  \<open>probeSpec\<close> says: with an entry of stored depth at least the requested depth, an
  \<open>EXACT\<close> score is returned directly, a \<open>LOWER_BOUND\<close> raises alpha, an
  \<open>UPPER_BOUND\<close> lowers beta, and if then alpha \<open>\<ge>\<close> beta the stored score is
  returned; otherwise, and with no entry or an entry of lower depth, the search goes on to
  move generation (with the window tightened, or untouched when the entry is ignored).
\<close>

theorem negaMax_cache_probe:
  assumes "limitsReached P s = (False, s1)"
  shows "negaMax P b depth alpha beta s =
    (case probeSpec (tt s1 (getZKey b)) depth alpha beta of
       Return v \<Rightarrow> (v, s1)
     | Continue alpha' beta' \<Rightarrow> negaMoves P b depth alpha alpha' beta' s1)"
proof (cases "probeSpec (tt s1 (getZKey b)) depth alpha beta")
  case (Return v)
  then have "ttProbe (tt s1 (getZKey b)) depth alpha beta = Inl v"
    by (simp add: ttProbe_probeSpec)
  then show ?thesis using Return by (simp add: negaMax_probe_return[OF assms])
next
  case (Continue alpha' beta')
  then have "ttProbe (tt s1 (getZKey b)) depth alpha beta = Inr (alpha', beta')"
    by (simp add: ttProbe_probeSpec)
  then show ?thesis using Continue by (simp add: negaMax_probe_continue[OF assms])
qed

theorem negaMax_cache_probe_witness:
  "limitsReached exampleParams (cachedSearch LOWER_BOUND) = (False, polled (cachedSearch LOWER_BOUND)) \<and>
   negaMax exampleParams quietBoard 2 (- 50) 30 (cachedSearch LOWER_BOUND) =
     (40, polled (cachedSearch LOWER_BOUND))"
proof -
  have h: "limitsReached exampleParams (cachedSearch LOWER_BOUND) =
      (False, polled (cachedSearch LOWER_BOUND))"
    by (rule limitsReached_cachedSearch)
  have pr: "probeSpec (tt (polled (cachedSearch LOWER_BOUND)) (getZKey quietBoard)) 2 (- 50) 30 =
      Return 40"
    by (simp add: probeSpec_def cachedSearch_def polled_def TranspTableEntry_def quietBoard_def)
  show ?thesis
    using negaMax_cache_probe[OF h, of quietBoard 2 "- 50" 30] by (simp add: pr h)
qed

subsection \<open>C3: terminal positions\<close>

text \<open>
  C3, as amended. For a position with no legal moves, Quiescence, once its limit check has
  passed, and NegaMax, once its limit check has passed and its cache probe has not
  returned, yield \<open>-INF\<close> if the side to move is in check and 0 otherwise, whatever the
  remaining depth and the window.
\<close>

theorem terminal_score:
  assumes "getLegalMoves b = []"
    and "limitsReached P s = (False, s1)"
    and "ttProbe (tt s1 (getZKey b)) depth alpha beta = Inr w"
  shows "fst (negaMax P b depth alpha beta s) =
           (if colorIsInCheck b (getActivePlayer b) then - INFTY P else 0) \<and>
         fst (qSearch P b alpha beta s) =
           (if colorIsInCheck b (getActivePlayer b) then - INFTY P else 0)"
proof -
  obtain alpha' beta' where w: "w = (alpha', beta')" by (cases w)
  have "negaMax P b depth alpha beta s = negaMoves P b depth alpha alpha' beta' s1"
    using assms(2,3) w by (simp add: negaMax_probe_continue)
  then show ?thesis
    using assms(1,2) by (simp add: negaMoves_terminal qSearch_terminal)
qed

theorem terminal_score_witness:
  "getLegalMoves checkmateBoard = [] \<and>
   limitsReached exampleParams (startSearch checkmateBoard) =
     (False, polled (startSearch checkmateBoard)) \<and>
   ttProbe (tt (polled (startSearch checkmateBoard)) (getZKey checkmateBoard)) 3 (- 5) 5 =
     Inr (- 5, 5) \<and>
   fst (negaMax exampleParams checkmateBoard 3 (- 5) 5 (startSearch checkmateBoard)) = - 1000000 \<and>
   fst (qSearch exampleParams checkmateBoard (- 5) 5 (startSearch checkmateBoard)) = - 1000000"
proof -
  have a: "getLegalMoves checkmateBoard = []"
    by (simp add: getLegalMoves_def checkmateBoard_def)
  have p: "ttProbe (tt (polled (startSearch checkmateBoard)) (getZKey checkmateBoard)) 3 (- 5) 5 =
     Inr (- 5, 5)"
    by (simp add: ttProbe_def polled_def startSearch_def Search_def Let_def)
  have c: "colorIsInCheck checkmateBoard (getActivePlayer checkmateBoard)"
    by (simp add: checkmateBoard_def)
  have i: "INFTY exampleParams = 1000000"
    by (simp add: exampleParams_def)
  show ?thesis
    using terminal_score[OF a limitsReached_startSearch p]
    by (simp add: a p c i limitsReached_startSearch)
qed

text \<open>
  The claim as stated has no exception: but with the stop flag set both functions return
  the sentinel 0 for a checkmated side to move.
\<close>

theorem terminal_score_counterexample:
  "getLegalMoves checkmateBoard = [] \<and>
   colorIsInCheck checkmateBoard (getActivePlayer checkmateBoard) \<and>
   fst (negaMax exampleParams checkmateBoard 3 (- 5) 5 (Search_stop (startSearch checkmateBoard))) = 0 \<and>
   fst (qSearch exampleParams checkmateBoard (- 5) 5 (Search_stop (startSearch checkmateBoard))) = 0 \<and>
   - INFTY exampleParams \<noteq> 0"
proof -
  have "limitsReached exampleParams (Search_stop (startSearch checkmateBoard)) =
      (True, Search_stop (startSearch checkmateBoard))"
    by (simp add: limitsReached_def Search_stop_def)
  then show ?thesis
    by (simp add: negaMax_halt qSearch_halt getLegalMoves_def checkmateBoard_def exampleParams_def)
qed

subsection \<open>C2: values returned within the window\<close>

lemma qLoop_window:
  "alpha \<le> beta \<Longrightarrow>
   alpha \<le> fst (qLoop P b ms alpha beta s) \<and> fst (qLoop P b ms alpha beta s) \<le> beta"
proof (induction ms arbitrary: alpha s)
  case Nil
  then show ?case by simp
next
  case (Cons m ms)
  show ?case
  proof (cases "doMove b m")
    case None
    then show ?thesis using Cons by (simp add: qLoop_skip)
  next
    case (Some c)
    obtain v s1 where Q: "qSearch P c (- beta) (- alpha) s = (v, s1)"
      by (cases "qSearch P c (- beta) (- alpha) s")
    show ?thesis
    proof (cases "- v \<ge> beta")
      case True
      then show ?thesis using Cons.prems by (simp add: qLoop_step[OF Some Q])
    next
      case False
      let ?a = "if - v > alpha then - v else alpha"
      have "?a \<le> beta" using False Cons.prems by simp
      from Cons.IH[OF this, of s1] have "?a \<le> fst (qLoop P b ms ?a beta s1) \<and>
        fst (qLoop P b ms ?a beta s1) \<le> beta" .
      moreover have "alpha \<le> ?a" by simp
      ultimately show ?thesis using False by (simp add: qLoop_step[OF Some Q])
    qed
  qed
qed

lemma negaLoop_window:
  "alpha \<le> beta \<Longrightarrow>
   alpha \<le> fst (negaLoop P b depth legalMoves ms alphaOrig alpha beta bestMv s) \<and>
   fst (negaLoop P b depth legalMoves ms alphaOrig alpha beta bestMv s) \<le> beta"
proof (induction ms arbitrary: alpha bestMv s)
  case Nil
  then show ?case by simp
next
  case (Cons m ms)
  show ?case
  proof (cases "doMove b m")
    case None
    then show ?thesis using Cons by (simp add: negaLoop_skip)
  next
    case (Some c)
    let ?s0 = "s\<lparr>orderingInfo := incrementPly (orderingInfo s)\<rparr>"
    obtain v s1 where N: "negaMax P c (depth - 1) (- beta) (- alpha) ?s0 = (v, s1)"
      by (cases "negaMax P c (depth - 1) (- beta) (- alpha) ?s0")
    note step = negaLoop_step[OF Some N refl]
    consider (cut) "- v \<ge> beta" | (raise) "\<not> - v \<ge> beta" "- v > alpha"
      | (keep) "\<not> - v \<ge> beta" "\<not> - v > alpha"
      by blast
    then show ?thesis
    proof cases
      case cut
      then show ?thesis using Cons.prems by (simp add: step)
    next
      case raise
      then have "- v \<le> beta" by simp
      from Cons.IH[OF this, of m "s1\<lparr>orderingInfo := deincrementPly (orderingInfo s1)\<rparr>"]
      have "- v \<le> fst (negaLoop P b depth legalMoves ms alphaOrig (- v) beta m
                 (s1\<lparr>orderingInfo := deincrementPly (orderingInfo s1)\<rparr>)) \<and>
            fst (negaLoop P b depth legalMoves ms alphaOrig (- v) beta m
                 (s1\<lparr>orderingInfo := deincrementPly (orderingInfo s1)\<rparr>)) \<le> beta" .
      moreover have "alpha \<le> - v" using raise by simp
      ultimately show ?thesis using raise by (simp add: step)
    next
      case keep
      from Cons.IH[OF Cons.prems] keep show ?thesis by (simp add: step)
    qed
  qed
qed

lemma ttProbe_window:
  assumes "ttProbe entry depth alpha beta = Inr (alpha', beta')" and "alpha \<le> beta"
  shows "alpha \<le> alpha' \<and> alpha' \<le> beta' \<and> beta' \<le> beta"
proof (cases entry)
  case None
  then show ?thesis using assms by (simp add: ttProbe_def)
next
  case (Some e)
  then show ?thesis using assms
    by (cases "getFlag e") (auto simp: ttProbe_def Let_def split: if_splits)
qed

text \<open>
  C2, as amended. With \<open>alpha \<le> beta\<close>, at a position with legal moves and after a
  passed limit check: a NegaMax call of nonzero depth whose cache probe does not return,
  and a Quiescence call that has a capture to try, return a value within
  \<open>[alpha, beta]\<close>.
\<close>

theorem cutoff_within_window:
  assumes "alpha \<le> beta"
    and "limitsReached P s = (False, s1)"
    and "getLegalMoves b \<noteq> []"
  shows "(depth \<noteq> 0 \<and> ttProbe (tt s1 (getZKey b)) depth alpha beta = Inr w \<longrightarrow>
            alpha \<le> fst (negaMax P b depth alpha beta s) \<and>
            fst (negaMax P b depth alpha beta s) \<le> beta) \<and>
         (CaptureMovePicker P (getLegalMoves b) \<noteq> [] \<longrightarrow>
            alpha \<le> fst (qSearch P b alpha beta s) \<and> fst (qSearch P b alpha beta s) \<le> beta)"
proof (intro conjI impI)
  assume h: "depth \<noteq> 0 \<and> ttProbe (tt s1 (getZKey b)) depth alpha beta = Inr w"
  obtain alpha' beta' where w: "w = (alpha', beta')" by (cases w)
  have pr: "ttProbe (tt s1 (getZKey b)) depth alpha beta = Inr (alpha', beta')"
    using h w by simp
  have win: "alpha \<le> alpha' \<and> alpha' \<le> beta' \<and> beta' \<le> beta"
    by (rule ttProbe_window[OF pr assms(1)])
  have eq: "negaMax P b depth alpha beta s =
      negaLoop P b depth (getLegalMoves b)
        (GeneralMovePicker P (orderingInfo s1) (tt s1) b (getLegalMoves b)) alpha alpha' beta' Move s1"
    using h w assms(2,3) by (simp add: negaMax_probe_continue negaMoves_loop)
  have "alpha' \<le> fst (negaMax P b depth alpha beta s) \<and>
        fst (negaMax P b depth alpha beta s) \<le> beta'"
    unfolding eq using win by (intro negaLoop_window) simp
  then show "alpha \<le> fst (negaMax P b depth alpha beta s)"
    and "fst (negaMax P b depth alpha beta s) \<le> beta"
    using win by simp_all
next
  assume caps: "CaptureMovePicker P (getLegalMoves b) \<noteq> []"
  let ?sp = "evalScore b (getActivePlayer b)"
  have "alpha \<le> fst (qSearch P b alpha beta s) \<and> fst (qSearch P b alpha beta s) \<le> beta"
  proof (cases "?sp \<ge> beta")
    case True
    then show ?thesis using assms caps by (simp add: qSearch_standPat_cutoff)
  next
    case False
    let ?a = "if alpha < ?sp then ?sp else alpha"
    have "?a \<le> beta" using False assms(1) by simp
    from qLoop_window[OF this] have "?a \<le> fst (qLoop P b (CaptureMovePicker P (getLegalMoves b)) ?a beta
        (s1\<lparr>nodes := nodes s1 + 1\<rparr>)) \<and>
      fst (qLoop P b (CaptureMovePicker P (getLegalMoves b)) ?a beta (s1\<lparr>nodes := nodes s1 + 1\<rparr>)) \<le> beta" .
    moreover have "alpha \<le> ?a" by simp
    ultimately show ?thesis using False assms caps by (simp add: qSearch_captures)
  qed
  then show "alpha \<le> fst (qSearch P b alpha beta s)"
    and "fst (qSearch P b alpha beta s) \<le> beta" by simp_all
qed

theorem cutoff_within_window_witness:
  "(- 50 :: int) \<le> 50 \<and>
   limitsReached exampleParams (startSearch startBoard) = (False, polled (startSearch startBoard)) \<and>
   getLegalMoves startBoard \<noteq> [] \<and>
   (1 :: int) \<noteq> 0 \<and>
   ttProbe (tt (polled (startSearch startBoard)) (getZKey startBoard)) 1 (- 50) 50 = Inr (- 50, 50) \<and>
   CaptureMovePicker exampleParams (getLegalMoves startBoard) \<noteq> [] \<and>
   - 50 \<le> fst (negaMax exampleParams startBoard 1 (- 50) 50 (startSearch startBoard)) \<and>
   fst (negaMax exampleParams startBoard 1 (- 50) 50 (startSearch startBoard)) \<le> 50 \<and>
   - 50 \<le> fst (qSearch exampleParams startBoard (- 50) 50 (startSearch startBoard)) \<and>
   fst (qSearch exampleParams startBoard (- 50) 50 (startSearch startBoard)) \<le> 50"
proof -
  have a: "(- 50 :: int) \<le> 50" by simp
  have m: "getLegalMoves startBoard \<noteq> []"
    by (simp add: getLegalMoves_def startBoard_def)
  have p: "ttProbe (tt (polled (startSearch startBoard)) (getZKey startBoard)) 1 (- 50) 50 =
      Inr (- 50, 50)"
    by (simp add: ttProbe_def polled_def startSearch_def Search_def Let_def)
  have c: "CaptureMovePicker exampleParams (getLegalMoves startBoard) \<noteq> []"
    by (simp add: getLegalMoves_def startBoard_def exampleParams_def captureMove_def)
  show ?thesis
    using cutoff_within_window[where depth = 1 and w = "(- 50, 50)",
        OF a limitsReached_startSearch m]
    by (simp add: m p c limitsReached_startSearch)
qed

text \<open>
  The claim as stated covers every call. Quiescence at a quiet position with static
  evaluation 100 and window \<open>[-10, 10]\<close> returns 100.
\<close>

theorem cutoff_within_window_counterexample:
  "(- 10 :: int) \<le> 10 \<and>
   fst (qSearch exampleParams quietBoard (- 10) 10 (startSearch startBoard)) = 100 \<and>
   \<not> fst (qSearch exampleParams quietBoard (- 10) 10 (startSearch startBoard)) \<le> 10"
  by (simp add: search_eval example_defs)

subsection \<open>C7: the ply counter is balanced\<close>

text \<open>
  C7. Every \<open>incrementPly\<close> before a recursive descent is matched by the
  \<open>deincrementPly\<close> after it on all exit paths: whatever a call of NegaMax or of Root
  Search does, cancelled or not, the ply counter has its initial value when the call
  returns.
\<close>

theorem ply_balanced:
  "getPly (orderingInfo (snd (negaMax P b depth alpha beta s))) = getPly (orderingInfo s) \<and>
   getPly (orderingInfo (rootMax P b depth s)) = getPly (orderingInfo s)"
proof
  show "getPly (orderingInfo (snd (negaMax P b depth alpha beta s))) = getPly (orderingInfo s)"
    using negaMax_closure(1)[OF pollClosed_samePly searchClosed_samePly TrueI]
    by (simp add: samePly_def)
next
  let ?s0 = "s\<lparr>nodes := 0\<rparr>"
  have "samePly ?s0 (snd (snd (rootLoop P b depth ms alpha beta bestMv ?s0)))"
    for ms alpha beta bestMv
    by (rule rootLoop_closure[OF pollClosed_samePly searchClosed_samePly TrueI])
  then have *: "getPly (orderingInfo (snd (snd (rootLoop P b depth ms alpha beta bestMv ?s0)))) =
      getPly (orderingInfo s)" for ms alpha beta bestMv
    by (simp add: samePly_def)
  show "getPly (orderingInfo (rootMax P b depth s)) = getPly (orderingInfo s)"
  proof (cases "getLegalMoves b = []")
    case True
    then show ?thesis by (simp add: rootMax_def)
  next
    case False
    obtain a bm s1 where R: "rootLoop P b depth
        (GeneralMovePicker P (orderingInfo ?s0) (tt ?s0) b (getLegalMoves b))
        (- INFTY P) (INFTY P) Move ?s0 = (a, bm, s1)"
      by (metis prod_cases3)
    have "getPly (orderingInfo s1) = getPly (orderingInfo s)"
      using *[of "GeneralMovePicker P (orderingInfo ?s0) (tt ?s0) b (getLegalMoves b)"
          "- INFTY P" "INFTY P" Move] R by simp
    then show ?thesis using False R by (simp add: rootMax_def Let_def)
  qed
qed

subsection \<open>C9: the history table is keyed on the root's side to move\<close>






subsection \<open>C10: what the node counter counts\<close>





subsection \<open>C4: the null move is never stored\<close>

lemma noNullMoves_child:
  "noNullMoves b \<Longrightarrow> doMove b m = Some c \<Longrightarrow> NULL_MOVE \<notin> getFlags m \<and> noNullMoves c"
  by (cases b) (auto simp: doMove_def dest!: map_of_SomeD)

lemma noNullMoves_hd:
  "noNullMoves b \<Longrightarrow> getLegalMoves b \<noteq> [] \<Longrightarrow> NULL_MOVE \<notin> getFlags (hd (getLegalMoves b))"
proof (cases b)
  case (Board k a chk ev succs)
  assume "noNullMoves b" and "getLegalMoves b \<noteq> []"
  then show ?thesis using Board
    by (cases succs) (auto simp: getLegalMoves_def)
qed

lemma ttNoNull_set:
  "ttNoNull t \<Longrightarrow> NULL_MOVE \<notin> getFlags m \<Longrightarrow>
   ttNoNull (tt_set t k (TranspTableEntry score depth flg m))"
  by (simp add: ttNoNull_def tt_set_def TranspTableEntry_def)

lemma fallback_not_null:
  "noNullMoves b \<Longrightarrow> getLegalMoves b \<noteq> [] \<Longrightarrow>
   NULL_MOVE \<notin> getFlags (if NULL_MOVE \<in> getFlags bestMv then hd (getLegalMoves b) else bestMv)"
  by (simp add: noNullMoves_hd)

lemma pollClosed_keepsNoNull: "pollClosed P keepsNoNull"
  unfolding pollClosed_def keepsNoNull_def by (auto dest: limitsReached_frame(2))

lemma countClosed_keepsNoNull: "countClosed P keepsNoNull"
  unfolding countClosed_def keepsNoNull_def by (auto dest: limitsReached_frame(2))

lemma qSearch_keepsNoNull: "keepsNoNull s (snd (qSearch P b alpha beta s))"
  by (rule qSearch_qLoop_closure(1)[OF pollClosed_keepsNoNull countClosed_keepsNoNull])

lemma searchClosed_keepsNoNull: "searchClosed P (\<lambda>_. noNullMoves) keepsNoNull"
  unfolding searchClosed_def
proof (intro conjI allI impI)
  fix b m c depth score s
  assume "noNullMoves b" and "doMove b m = Some c"
  then have "NULL_MOVE \<notin> getFlags m" using noNullMoves_child by blast
  then show "keepsNoNull s (betaCutoff P b depth m score s)"
    by (simp add: keepsNoNull_def betaCutoff_def Let_def ttNoNull_set)
next
  fix b depth alphaOrig alpha bestMv s
  assume "noNullMoves b" and "getLegalMoves b \<noteq> []"
  then show "keepsNoNull s (storeResult b depth (getLegalMoves b) alphaOrig alpha bestMv s)"
    using fallback_not_null[of b bestMv]
    by (simp add: keepsNoNull_def storeResult_def Let_def ttNoNull_set)
next
  fix b alpha beta s
  show "keepsNoNull s (snd (qSearch P b alpha beta s))" by (rule qSearch_keepsNoNull)
next
  fix b m c and depth :: int
  assume "noNullMoves b" and "doMove b m = Some c"
  then show "noNullMoves c" using noNullMoves_child by blast
qed (simp add: keepsNoNull_def)

lemma negaMax_ttNoNull:
  "noNullMoves b \<Longrightarrow> ttNoNull (tt s) \<Longrightarrow> ttNoNull (tt (snd (negaMax P b depth alpha beta s)))"
  using negaMax_closure(1)[OF pollClosed_keepsNoNull searchClosed_keepsNoNull,
      where s = s and alpha = alpha and beta = beta and depth = depth and b = b]
  by (simp add: keepsNoNull_def)

lemma rootMax_ttNoNull:
  assumes "noNullMoves b" and "ttNoNull (tt s)"
  shows "ttNoNull (tt (rootMax P b depth s))"
proof (cases "getLegalMoves b = []")
  case True
  then show ?thesis using assms(2) by (simp add: rootMax_terminal)
next
  case False
  obtain a bm s1 where R: "rootLoop P b depth
      (GeneralMovePicker P (orderingInfo s) (tt s) b (getLegalMoves b))
      (- INFTY P) (INFTY P) Move (s\<lparr>nodes := 0\<rparr>) = (a, bm, s1)"
    by (rule rootLoop_cases)
  have "keepsNoNull (s\<lparr>nodes := 0\<rparr>) (snd (snd (rootLoop P b depth
      (GeneralMovePicker P (orderingInfo s) (tt s) b (getLegalMoves b))
      (- INFTY P) (INFTY P) Move (s\<lparr>nodes := 0\<rparr>))))"
    using noNullMoves_child[OF assms(1)]
    by (intro rootLoop_closure[OF pollClosed_keepsNoNull searchClosed_keepsNoNull]) blast
  then have t1: "ttNoNull (tt s1)" using R assms(2) by (simp add: keepsNoNull_def)
  show ?thesis
  proof (cases "stop s1")
    case True
    then show ?thesis using t1 by (simp add: rootMax_abandoned[OF False R])
  next
    case nst: False
    show ?thesis
      using t1 fallback_not_null[OF assms(1) False, of bm]
      by (simp add: rootMax_committed[OF False R nst refl] ttNoNull_set)
  qed
qed

lemma rootMax_bestMove:
  assumes "noNullMoves b" and "getLegalMoves b \<noteq> []"
  shows "(stop (rootMax P b depth s) \<longrightarrow> bestMove (rootMax P b depth s) = bestMove s) \<and>
         (\<not> stop (rootMax P b depth s) \<longrightarrow> NULL_MOVE \<notin> getFlags (bestMove (rootMax P b depth s)))"
proof -
  obtain a bm s1 where R: "rootLoop P b depth
      (GeneralMovePicker P (orderingInfo s) (tt s) b (getLegalMoves b))
      (- INFTY P) (INFTY P) Move (s\<lparr>nodes := 0\<rparr>) = (a, bm, s1)"
    by (rule rootLoop_cases)
  have "sameResult (s\<lparr>nodes := 0\<rparr>) (snd (snd (rootLoop P b depth
      (GeneralMovePicker P (orderingInfo s) (tt s) b (getLegalMoves b))
      (- INFTY P) (INFTY P) Move (s\<lparr>nodes := 0\<rparr>))))"
    by (rule rootLoop_closure[OF pollClosed_sameResult searchClosed_sameResult TrueI])
  then have bm1: "bestMove s1 = bestMove s" using R by (simp add: sameResult_def)
  show ?thesis
  proof (cases "stop s1")
    case True
    then show ?thesis using bm1 by (simp add: rootMax_abandoned[OF assms(2) R])
  next
    case nst: False
    show ?thesis
      using nst fallback_not_null[OF assms, of bm]
      by (simp add: rootMax_committed[OF assms(2) R nst refl])
  qed
qed

lemma iterLoop_ttNoNull:
  assumes "noNullMoves (board s)" and "ttNoNull (tt s)"
  shows "ttNoNull (tt (iterLoop P d s))"
proof -
  let ?I = "\<lambda>s :: search. noNullMoves (board s) \<and> ttNoNull (tt s)"
  have "?I (iterLoop P d s)"
  proof (rule iterLoop_invariant[where I = ?I])
    show "?I s" using assms by simp
  next
    fix s :: search and d assume "?I s"
    then show "?I (rootMax P (board s) d s)"
      using rootMax_ttNoNull[of "board s" s P d] rootMax_sameConfig[of s P "board s" d]
      by (simp add: sameConfig_def)
  next
    fix s :: search and d assume "?I s"
    then show "?I (iterReport P d s)" by (simp add: iterReport_frame)
  qed simp
  then show ?thesis by simp
qed

lemma iterLoop_bestMove:
  assumes "noNullMoves (board s)" and "getLegalMoves (board s) \<noteq> []"
    and "NULL_MOVE \<notin> getFlags (bestMove s)"
  shows "NULL_MOVE \<notin> getFlags (bestMove (iterLoop P d s))"
proof -
  let ?I = "\<lambda>s :: search. noNullMoves (board s) \<and> getLegalMoves (board s) \<noteq> [] \<and>
                  NULL_MOVE \<notin> getFlags (bestMove s)"
  have "?I (iterLoop P d s)"
  proof (rule iterLoop_invariant[where I = ?I])
    show "?I s" using assms by simp
  next
    fix s :: search and d assume I: "?I s"
    then have "NULL_MOVE \<notin> getFlags (bestMove (rootMax P (board s) d s))"
      using rootMax_bestMove[of "board s" P d s] by (cases "stop (rootMax P (board s) d s)") simp_all
    then show "?I (rootMax P (board s) d s)"
      using I rootMax_sameConfig[of s P "board s" d] by (simp add: sameConfig_def)
  next
    fix s :: search and d assume "?I s"
    then show "?I (iterReport P d s)" by (simp add: iterReport_frame)
  qed simp
  then show ?thesis by simp
qed

text \<open>
  C4, as amended. When the move generator yields no null move, no store of NegaMax or of
  Root Search writes a null move to the cache: a move that caused a cutoff is a legal
  move, and the store after the loop falls back to the first legal move when the best
  move is unset; so a cache without null moves stays so through a whole run. After a run
  from a position that has a legal move and whose first iteration is completed, the best
  move is not the null move.
\<close>

theorem null_move_never_stored:
  assumes "noNullMoves b" and "noNullMoves (board s)" and "ttNoNull (tt s)"
  shows "ttNoNull (tt (snd (negaMax P b depth alpha beta s))) \<and>
         ttNoNull (tt (rootMax P b depth s)) \<and>
         ttNoNull (tt (iterDeep P s)) \<and>
         (getLegalMoves (board s) \<noteq> [] \<and> 1 \<le> searchDepth s \<and>
          \<not> stop (rootMax P (board s) 1 s) \<longrightarrow>
            NULL_MOVE \<notin> getFlags (Search_getBestMove (iterDeep P s)))"
proof (intro conjI impI)
  show "ttNoNull (tt (snd (negaMax P b depth alpha beta s)))"
    by (rule negaMax_ttNoNull[OF assms(1,3)])
  show "ttNoNull (tt (rootMax P b depth s))"
    by (rule rootMax_ttNoNull[OF assms(1,3)])
  show "ttNoNull (tt (iterDeep P s))"
    using iterLoop_ttNoNull[OF assms(2,3), of P 1] by (simp add: iterDeep_def Let_def)
next
  assume h: "getLegalMoves (board s) \<noteq> [] \<and> 1 \<le> searchDepth s \<and>
    \<not> stop (rootMax P (board s) 1 s)"
  define s1 where "s1 = rootMax P (board s) 1 s"
  define s3 where "s3 = iterReport P 1 s1"
  have cfg: "board s1 = board s"
    unfolding s1_def using rootMax_sameConfig[of s P "board s" 1] by (simp add: sameConfig_def)
  have "NULL_MOVE \<notin> getFlags (bestMove s1)"
    unfolding s1_def using rootMax_bestMove[OF assms(2), of P 1 s] h by simp
  then have g3: "NULL_MOVE \<notin> getFlags (bestMove s3)" "board s3 = board s"
    unfolding s3_def using cfg by (simp_all add: iterReport_frame)
  have "iterLoop P 1 s = s3 \<or> iterLoop P 1 s = iterLoop P (1 + 1) s3"
    using h iterLoop_last[OF _ s1_def _ s3_def] iterLoop_next[OF _ s1_def _ s3_def]
    unfolding s1_def[symmetric] by blast
  moreover have "NULL_MOVE \<notin> getFlags (bestMove (iterLoop P (1 + 1) s3))"
    using iterLoop_bestMove[of s3 P "1 + 1"] g3 assms(2) h by simp
  ultimately have "NULL_MOVE \<notin> getFlags (bestMove (iterLoop P 1 s))"
    using g3 by auto
  then show "NULL_MOVE \<notin> getFlags (Search_getBestMove (iterDeep P s))"
    by (simp add: iterDeep_def Search_getBestMove_def Let_def)
qed

theorem null_move_never_stored_witness:
  "noNullMoves startBoard \<and> noNullMoves (board (startSearch startBoard)) \<and>
   ttNoNull (tt (startSearch startBoard)) \<and>
   getLegalMoves (board (startSearch startBoard)) \<noteq> [] \<and>
   1 \<le> searchDepth (startSearch startBoard) \<and>
   \<not> stop (rootMax exampleParams (board (startSearch startBoard)) 1 (startSearch startBoard)) \<and>
   ttNoNull (tt (snd (negaMax exampleParams startBoard 2 (- 50) 50 (startSearch startBoard)))) \<and>
   ttNoNull (tt (rootMax exampleParams startBoard 2 (startSearch startBoard))) \<and>
   ttNoNull (tt (iterDeep exampleParams (startSearch startBoard))) \<and>
   NULL_MOVE \<notin> getFlags (Search_getBestMove (iterDeep exampleParams (startSearch startBoard)))"
proof -
  have brd: "board (startSearch startBoard) = startBoard"
    by (simp add: startSearch_def Search_def Let_def split: prod.splits)
  have a: "noNullMoves startBoard" by (simp add: example_defs)
  have b: "noNullMoves (board (startSearch startBoard))" unfolding brd by (rule a)
  have c: "ttNoNull (tt (startSearch startBoard))"
    by (simp add: ttNoNull_def example_defs Let_def)
  have d: "getLegalMoves (board (startSearch startBoard)) \<noteq> []"
    unfolding brd by (simp add: getLegalMoves_def startBoard_def)
  have e: "1 \<le> searchDepth (startSearch startBoard)"
    by (simp add: example_defs Let_def)
  have f: "\<not> stop (rootMax exampleParams (board (startSearch startBoard)) 1 (startSearch startBoard))"
    by (simp add: search_eval example_defs)
  note T = null_move_never_stored[OF a b c, of exampleParams 2 "- 50" 50]
  have r1: "ttNoNull (tt (snd (negaMax exampleParams startBoard 2 (- 50) 50 (startSearch startBoard))))"
    using T by blast
  have r2: "ttNoNull (tt (rootMax exampleParams startBoard 2 (startSearch startBoard)))"
    using T by blast
  have r3: "ttNoNull (tt (iterDeep exampleParams (startSearch startBoard)))"
    using T by blast
  have r4: "NULL_MOVE \<notin> getFlags (Search_getBestMove (iterDeep exampleParams (startSearch startBoard)))"
    using T d e f by blast
  show ?thesis by (intro conjI a b c d e f r1 r2 r3 r4)
qed

text \<open>
  The claim as stated has no exception for a root without legal moves: there Root Search
  sets the best move to the null move, and that is what \<open>getBestMove\<close> returns after the
  run.
\<close>

theorem null_move_never_stored_counterexample:
  "getLegalMoves stalemateBoard = [] \<and>
   Search_getBestMove (iterDeep exampleParams (startSearch stalemateBoard)) = Move \<and>
   NULL_MOVE \<in> getFlags (Search_getBestMove (iterDeep exampleParams (startSearch stalemateBoard)))"
  by (simp add: loop_eval search_eval example_defs)

subsection \<open>C5: an abandoned iteration is not committed\<close>












subsection \<open>C8: the node cap\<close>








lemma capInv_frame [simp]:
  "capInv (s\<lparr>orderingInfo := oi\<rparr>) = capInv s" "capInv (s\<lparr>tt := t\<rparr>) = capInv s"
  by (simp_all add: capInv_def)





lemma stopped_state: "stop s \<Longrightarrow> s\<lparr>stop := True\<rparr> = s"
  by simp





















end
